theory Spec2Isabelle
  imports Main "HOL-Library.Word" "HOL-Library.AList"
begin

section \<open>Local-file store: key validation\<close>

text \<open>
  The textual form of a key (\<^verbatim>\<open>fmt.Sprintf("%v", key)\<close>) is a Go string: a sequence of
  bytes, here a \<^typ>\<open>string\<close> (each \<^typ>\<open>char\<close> is one byte). \<^verbatim>\<open>len(s)\<close> counts bytes.
\<close>

type_synonym rune = nat

definition maxKeyLength :: nat where
  "maxKeyLength = 127"

datatype key_error = KeyTooLong nat nat | InvalidCharacter rune

definition runeError :: rune where
  "runeError = 0xFFFD"

definition isCont :: "char \<Rightarrow> bool" where
  "isCont c = (0x80 \<le> (of_char c :: nat) \<and> (of_char c :: nat) \<le> 0xBF)"

definition inRange :: "nat \<Rightarrow> nat \<Rightarrow> char \<Rightarrow> bool" where
  "inRange lo hi c = (lo \<le> (of_char c :: nat) \<and> (of_char c :: nat) \<le> hi)"

definition low6 :: "char \<Rightarrow> nat" where
  "low6 c = (of_char c :: nat) mod 64"

text \<open>
  The iteration \<^verbatim>\<open>for _, ch := range s\<close> decodes the string as UTF-8, one code point at
  a time; an invalid sequence yields U+FFFD and advances by a single byte.
  \<open>decodeRune s\<close> is the code point at the front of \<open>s\<close> and the number of bytes it takes.
\<close>

definition decode2 :: "nat \<Rightarrow> string \<Rightarrow> rune \<times> nat" where
  "decode2 b0 cs =
     (case cs of
        c1 # _ \<Rightarrow> if isCont c1 then ((b0 mod 32) * 64 + low6 c1, 2) else (runeError, 1)
      | _ \<Rightarrow> (runeError, 1))"

definition decode3 :: "nat \<Rightarrow> string \<Rightarrow> rune \<times> nat" where
  "decode3 b0 cs =
     (case cs of
        c1 # c2 # _ \<Rightarrow>
          if inRange (if b0 = 0xE0 then 0xA0 else 0x80) (if b0 = 0xED then 0x9F else 0xBF) c1
             \<and> isCont c2
          then ((b0 mod 16) * 4096 + low6 c1 * 64 + low6 c2, 3)
          else (runeError, 1)
      | _ \<Rightarrow> (runeError, 1))"

definition decode4 :: "nat \<Rightarrow> string \<Rightarrow> rune \<times> nat" where
  "decode4 b0 cs =
     (case cs of
        c1 # c2 # c3 # _ \<Rightarrow>
          if inRange (if b0 = 0xF0 then 0x90 else 0x80) (if b0 = 0xF4 then 0x8F else 0xBF) c1
             \<and> isCont c2 \<and> isCont c3
          then ((b0 mod 8) * 262144 + low6 c1 * 4096 + low6 c2 * 64 + low6 c3, 4)
          else (runeError, 1)
      | _ \<Rightarrow> (runeError, 1))"

fun decodeRune :: "string \<Rightarrow> rune \<times> nat" where
  "decodeRune [] = (runeError, 1)"
| "decodeRune (c # cs) =
     (let b0 = (of_char c :: nat) in
      if b0 < 0x80 then (b0, 1)
      else if 0xC2 \<le> b0 \<and> b0 \<le> 0xDF then decode2 b0 cs
      else if 0xE0 \<le> b0 \<and> b0 \<le> 0xEF then decode3 b0 cs
      else if 0xF0 \<le> b0 \<and> b0 \<le> 0xF4 then decode4 b0 cs
      else (runeError, 1))"

text \<open>The character test of \<^verbatim>\<open>ValidateKey\<close>'s loop body, negated: the allowed code points.\<close>

definition allowedRune :: "rune \<Rightarrow> bool" where
  "allowedRune ch =
     (\<not> ((ch < of_char CHR ''a'' \<or> ch > of_char CHR ''z'')
         \<and> (ch < of_char CHR ''A'' \<or> ch > of_char CHR ''Z'')
         \<and> (ch < of_char CHR ''0'' \<or> ch > of_char CHR ''9'')
         \<and> ch \<noteq> of_char CHR ''-'' \<and> ch \<noteq> of_char CHR ''_''
         \<and> ch \<noteq> of_char CHR ''.'' \<and> ch \<noteq> of_char CHR '':''))"

lemma decodeRune_width: "1 \<le> snd (decodeRune s) \<and> snd (decodeRune s) \<le> 4"
  by (cases s) (auto simp: Let_def decode2_def decode3_def decode4_def split: list.splits)

function checkChars :: "string \<Rightarrow> key_error option" where
  "checkChars s =
     (if s = [] then None
      else (let (ch, w) = decodeRune s in
            if \<not> allowedRune ch then Some (InvalidCharacter ch)
            else checkChars (drop w s)))"
  by pat_completeness auto
termination
proof (relation "measure length")
  show "wf (measure length)" by simp
next
  fix s :: string and x ch w
  assume "s \<noteq> []" and "x = decodeRune s" and "(ch, w) = x"
  then have "1 \<le> w"
    using decodeRune_width [of s] by (metis snd_conv)
  with \<open>s \<noteq> []\<close> show "(drop w s, s) \<in> measure length"
    by (cases s) auto
qed

declare checkChars.simps [simp del]

text \<open>\<^verbatim>\<open>Store.ValidateKey\<close>: \<open>None\<close> is the nil error.\<close>

definition ValidateKey :: "string \<Rightarrow> key_error option" where
  "ValidateKey s =
     (if length s > maxKeyLength then Some (KeyTooLong (length s) maxKeyLength)
      else checkChars s)"

section \<open>Local-file store: reading a record\<close>

text \<open>
  The operating system and the gob decoder are outside the repository. The disk is a map
  from file names to contents; \<open>osenv\<close> holds what the environment decides: the faults of
  \<^verbatim>\<open>os.Open\<close>, \<^verbatim>\<open>f.Close\<close> and \<^verbatim>\<open>os.Remove\<close> on a file name (\<open>None\<close>: no fault), the
  decoder, and the file name of a key (\<^verbatim>\<open>filepath.Join(s.Dir, s.keyToFilename(key))\<close>).
  A \<^verbatim>\<open>time.Time\<close> is \<open>int option\<close>, \<open>None\<close> the zero instant.
\<close>

datatype oserror = ErrNotExist | ErrIO string

datatype 'd store_error =
    OpenFile oserror
  | DecodeFile 'd
  | CloseFile oserror
  | RemoveExpiredFile oserror
  | OsError oserror
  | Joined "'d store_error list"

record ('k, 'v) Entry =
  Key :: 'k
  Value :: 'v
  Expiry :: "int option"
  UpdatedAt :: "int option"

record ('k, 'v, 'c, 'd) osenv =
  openFault :: "string \<Rightarrow> oserror option"
  closeFault :: "string \<Rightarrow> oserror option"
  removeFault :: "string \<Rightarrow> oserror option"
  gobDecode :: "'c \<Rightarrow> 'd + ('k, 'v) Entry"
  fileName :: "'k \<Rightarrow> string"

type_synonym 'c disk = "string \<rightharpoonup> 'c"

definition osOpen :: "('k, 'v, 'c, 'd) osenv \<Rightarrow> 'c disk \<Rightarrow> string \<Rightarrow> oserror + 'c" where
  "osOpen env d fn =
     (case openFault env fn of
        Some e \<Rightarrow> Inl e
      | None \<Rightarrow> (case d fn of None \<Rightarrow> Inl ErrNotExist | Some c \<Rightarrow> Inr c))"

definition osRemove :: "('k, 'v, 'c, 'd) osenv \<Rightarrow> 'c disk \<Rightarrow> string \<Rightarrow> oserror option \<times> 'c disk" where
  "osRemove env d fn =
     (case removeFault env fn of
        Some e \<Rightarrow> (Some e, d)
      | None \<Rightarrow> (case d fn of None \<Rightarrow> (Some ErrNotExist, d) | Some c \<Rightarrow> (None, d(fn := None))))"

text \<open>\<^verbatim>\<open>errors.Join\<close> drops the nil errors and is nil when none is left.\<close>

definition errorsJoin :: "'d store_error option list \<Rightarrow> 'd store_error option" where
  "errorsJoin es =
     (case List.map_filter (\<lambda>e. e) es of [] \<Rightarrow> None | x # xs \<Rightarrow> Some (Joined (x # xs)))"

text \<open>
  The result of \<^verbatim>\<open>Store.Get\<close>: value (\<open>None\<close>: the zero value), expiry, found, error.
\<close>

record ('v, 'd) get_result =
  rvalue :: "'v option"
  rexpiry :: "int option"
  rfound :: bool
  rerr :: "'d store_error option"

definition miss :: "'d store_error option \<Rightarrow> ('v, 'd) get_result" where
  "miss e = \<lparr>rvalue = None, rexpiry = None, rfound = False, rerr = e\<rparr>"

definition timeAfter :: "int \<Rightarrow> int option \<Rightarrow> bool" where
  "timeAfter now t = (case t of None \<Rightarrow> True | Some u \<Rightarrow> now > u)"

definition Store_Get ::
  "('k, 'v, 'c, 'd) osenv \<Rightarrow> int \<Rightarrow> 'c disk \<Rightarrow> 'k \<Rightarrow> ('v, 'd) get_result \<times> 'c disk" where
  "Store_Get env now d k =
     (let fn = fileName env k in
      case osOpen env d fn of
        Inl e \<Rightarrow>
          if e = ErrNotExist then (miss None, d) else (miss (Some (OpenFile e)), d)
      | Inr c \<Rightarrow>
          (let closeErr = closeFault env fn in
           case gobDecode env c of
             Inl decErr \<Rightarrow>
               (let (rmErr, d') = osRemove env d fn in
                (miss (errorsJoin [Some (DecodeFile decErr),
                                   map_option OsError closeErr,
                                   map_option OsError rmErr]), d'))
           | Inr e \<Rightarrow>
               (case closeErr of
                  Some ce \<Rightarrow> (miss (Some (CloseFile ce)), d)
                | None \<Rightarrow>
                    if Expiry e \<noteq> None \<and> timeAfter now (Expiry e) then
                      (let (rmErr, d') = osRemove env d fn in
                       case rmErr of
                         Some re \<Rightarrow>
                           if re \<noteq> ErrNotExist then (miss (Some (RemoveExpiredFile re)), d')
                           else (miss None, d')
                       | None \<Rightarrow> (miss None, d'))
                    else (\<lparr>rvalue = Some (Value e), rexpiry = Expiry e, rfound = True,
                           rerr = None\<rparr>, d))))"

text \<open>A disk holding one record that does not decode, for the concrete checks below.\<close>

definition corruptEnv :: "(string, nat, string, string) osenv" where
  "corruptEnv =
     \<lparr>openFault = (\<lambda>_. None), closeFault = (\<lambda>_. None), removeFault = (\<lambda>_. None),
      gobDecode = (\<lambda>c. if c = ''ok''
                         then Inr \<lparr>Key = ''k'', Value = 7, Expiry = None, UpdatedAt = None\<rparr>
                         else Inl ''unexpected EOF''),
      fileName = (\<lambda>k. ''/cache/'' @ k @ ''.gob'')\<rparr>"

definition corruptDisk :: "string disk" where
  "corruptDisk = [''/cache/k.gob'' \<mapsto> ''garbage'']"

section \<open>The shard of the S3-FIFO cache\<close>

text \<open>
  Entries are heap objects that the key map, the two intrusive queues and the death row
  share by pointer. The model keeps them in an explicit store: \<open>heap\<close> is the list of the
  entries allocated so far, and a \<^verbatim>\<open>*entry\<close> is an index into it (\<open>None\<close> is \<^verbatim>\<open>nil\<close>).
  The operations run one after the other (the lock-free interleavings are not modelled);
  the wall clock is an argument.
\<close>

type_synonym addr = nat

definition maxFreq :: "32 word" where
  "maxFreq = 7"

record ('k, 'v) entry =
  key :: 'k
  evalue :: 'v
  prev :: "addr option"
  nxt :: "addr option"
  hash :: "64 word"
  expiryNano :: int
  freq :: "32 word"
  peakFreq :: "32 word"
  inSmall :: bool
  onDeathRow :: bool

record entryList =
  head :: "addr option"
  tail :: "addr option"
  len :: int

record ghostFreqRing =
  hashes :: "64 word list"
  freqs :: "32 word list"
  pos :: "8 word"

text \<open>
  The bloom filter type is not part of the sources at hand. Its operations, as the shard
  calls them (\<^verbatim>\<open>Contains\<close>, \<^verbatim>\<open>Add\<close>, \<^verbatim>\<open>Reset\<close> and the field \<^verbatim>\<open>entries\<close>), are a
  parameter of the model; nothing is assumed about them.
\<close>

record 'b bloomOps =
  bfContains :: "'b \<Rightarrow> 64 word \<Rightarrow> bool"
  bfAdd :: "'b \<Rightarrow> 64 word \<Rightarrow> 'b"
  bfReset :: "'b \<Rightarrow> 'b"
  bfEntries :: "'b \<Rightarrow> int"

text \<open>
  The key map \<open>entries\<close> is an association list with one pair for each key: a key is
  looked up with \<open>map_of\<close>, stored with \<open>AList.update\<close> and deleted with
  \<open>AList.delete\<close>, and the size of the map is the length of the list.
  \<open>totalEntries\<close> and \<open>parentCapacity\<close> are \<^verbatim>\<open>s.parent.totalEntries\<close> and
  \<^verbatim>\<open>s.parent.capacity\<close>, the counter and the capacity of the cache the shard belongs to.
\<close>

record ('k, 'v, 'b) shard =
  heap :: "('k, 'v) entry list"
  entries :: "('k \<times> addr) list"
  small :: entryList
  main :: entryList
  ghostActive :: 'b
  ghostAging :: 'b
  ghostFreqRng :: ghostFreqRing
  ghostCap :: int
  hasher :: "'k \<Rightarrow> 64 word"
  deathRow :: "addr option list"
  deathRowPos :: nat
  capacity :: int
  smallThresh :: int
  warmupComplete :: bool
  totalEntries :: int
  parentCapacity :: int

text \<open>
  A run-time panic of the Go program. \<open>NilDereference\<close> is the read of a field through a
  nil pointer. \<open>InvalidPointer\<close> has no counterpart in Go, where a non-nil pointer always
  points to an entry: it is what the model answers when a queue head lies outside the heap.
\<close>

datatype panic = NilDereference | InvalidPointer

subsection \<open>The ghost frequency ring\<close>

definition ring_add :: "ghostFreqRing \<Rightarrow> 64 word \<Rightarrow> 32 word \<Rightarrow> ghostFreqRing" where
  "ring_add r h f =
     r\<lparr>hashes := (hashes r)[unat (pos r) := h],
       freqs := (freqs r)[unat (pos r) := f],
       pos := pos r + 1\<rparr>"

text \<open>The first slot whose hash is \<open>h\<close>, if any: \<open>None\<close> is the result \<^verbatim>\<open>(0, false)\<close>.\<close>

definition ring_lookup :: "ghostFreqRing \<Rightarrow> 64 word \<Rightarrow> 32 word option" where
  "ring_lookup r h = map_of (zip (hashes r) (freqs r)) h"

definition emptyRing :: ghostFreqRing where
  "emptyRing = \<lparr>hashes = replicate 256 0, freqs = replicate 256 0, pos = 0\<rparr>"

subsection \<open>The intrusive list\<close>

text \<open>A write through a pointer: the entry at address \<open>a\<close> is replaced by \<open>g\<close> of it.\<close>

definition hupd ::
  "('k, 'v) entry list \<Rightarrow> addr \<Rightarrow> (('k, 'v) entry \<Rightarrow> ('k, 'v) entry) \<Rightarrow> ('k, 'v) entry list" where
  "hupd h a g = h[a := g (h ! a)]"

definition pushBack ::
  "('k, 'v) entry list \<Rightarrow> entryList \<Rightarrow> addr \<Rightarrow> ('k, 'v) entry list \<times> entryList" where
  "pushBack h l e =
     (let h1 = hupd h e (\<lambda>x. x\<lparr>prev := tail l\<rparr>);
          h2 = hupd h1 e (\<lambda>x. x\<lparr>nxt := None\<rparr>);
          (h3, l3) = (case tail l of
                        Some t \<Rightarrow> (hupd h2 t (\<lambda>x. x\<lparr>nxt := Some e\<rparr>), l)
                      | None \<Rightarrow> (h2, l\<lparr>head := Some e\<rparr>))
      in (h3, l3\<lparr>tail := Some e, len := len l3 + 1\<rparr>))"

definition list_remove ::
  "('k, 'v) entry list \<Rightarrow> entryList \<Rightarrow> addr \<Rightarrow> ('k, 'v) entry list \<times> entryList" where
  "list_remove h l e =
     (let (h1, l1) = (case prev (h ! e) of
                        Some p \<Rightarrow> (hupd h p (\<lambda>x. x\<lparr>nxt := nxt (h ! e)\<rparr>), l)
                      | None \<Rightarrow> (h, l\<lparr>head := nxt (h ! e)\<rparr>));
          (h2, l2) = (case nxt (h1 ! e) of
                        Some n \<Rightarrow> (hupd h1 n (\<lambda>x. x\<lparr>prev := prev (h1 ! e)\<rparr>), l1)
                      | None \<Rightarrow> (h1, l1\<lparr>tail := prev (h1 ! e)\<rparr>));
          h3 = hupd h2 e (\<lambda>x. x\<lparr>prev := None\<rparr>);
          h4 = hupd h3 e (\<lambda>x. x\<lparr>nxt := None\<rparr>)
      in (h4, l2\<lparr>len := len l2 - 1\<rparr>))"

definition small_pushBack :: "('k, 'v, 'b) shard \<Rightarrow> addr \<Rightarrow> ('k, 'v, 'b) shard" where
  "small_pushBack s e = (let (h, l) = pushBack (heap s) (small s) e in s\<lparr>heap := h, small := l\<rparr>)"

definition main_pushBack :: "('k, 'v, 'b) shard \<Rightarrow> addr \<Rightarrow> ('k, 'v, 'b) shard" where
  "main_pushBack s e = (let (h, l) = pushBack (heap s) (main s) e in s\<lparr>heap := h, main := l\<rparr>)"

definition small_remove :: "('k, 'v, 'b) shard \<Rightarrow> addr \<Rightarrow> ('k, 'v, 'b) shard" where
  "small_remove s e = (let (h, l) = list_remove (heap s) (small s) e in s\<lparr>heap := h, small := l\<rparr>)"

definition main_remove :: "('k, 'v, 'b) shard \<Rightarrow> addr \<Rightarrow> ('k, 'v, 'b) shard" where
  "main_remove s e = (let (h, l) = list_remove (heap s) (main s) e in s\<lparr>heap := h, main := l\<rparr>)"

text \<open>The same write, on the heap of a shard.\<close>

definition upd :: "('k, 'v, 'b) shard \<Rightarrow> addr \<Rightarrow> (('k, 'v) entry \<Rightarrow> ('k, 'v) entry) \<Rightarrow> ('k, 'v, 'b) shard" where
  "upd s a g = s\<lparr>heap := hupd (heap s) a g\<rparr>"

subsection \<open>Frequency accounting\<close>

text \<open>
  The hit accounting, which \<^verbatim>\<open>get\<close> and \<^verbatim>\<open>setWithHash\<close> both spell out:
  \<^verbatim>\<open>if ent.freq.Load() < maxFreq { if newFreq := ent.freq.Add(1); newFreq > ent.peakFreq.Load() { ent.peakFreq.Store(newFreq) } }\<close>.
\<close>

definition bumpFreq :: "('k, 'v) entry \<Rightarrow> ('k, 'v) entry" where
  "bumpFreq ent =
     (if freq ent < maxFreq then
        (let newFreq = freq ent + 1; ent1 = ent\<lparr>freq := newFreq\<rparr>
         in if newFreq > peakFreq ent1 then ent1\<lparr>peakFreq := newFreq\<rparr> else ent1)
      else ent)"

subsection \<open>Ghost and death row\<close>

definition addToGhost ::
  "'b bloomOps \<Rightarrow> ('k, 'v, 'b) shard \<Rightarrow> 64 word \<Rightarrow> 32 word \<Rightarrow> ('k, 'v, 'b) shard" where
  "addToGhost B s h pf =
     (let s1 = (if \<not> bfContains B (ghostActive s) h then
                  (let s' = s\<lparr>ghostActive := bfAdd B (ghostActive s) h\<rparr>
                   in if pf \<ge> 2 then s'\<lparr>ghostFreqRng := ring_add (ghostFreqRng s') h pf\<rparr> else s')
                else s)
      in if bfEntries B (ghostActive s1) \<ge> ghostCap s1 then
           s1\<lparr>ghostActive := bfReset B (ghostAging s1), ghostAging := ghostActive s1\<rparr>
         else s1)"

definition sendToDeathRow ::
  "'b bloomOps \<Rightarrow> ('k, 'v, 'b) shard \<Rightarrow> addr \<Rightarrow> ('k, 'v, 'b) shard" where
  "sendToDeathRow B s e =
     (let s1 = (case deathRow s ! deathRowPos s of
                  Some old \<Rightarrow>
                    (let s' = s\<lparr>entries := AList.delete (key (heap s ! old)) (entries s)\<rparr>;
                         s'' = addToGhost B s' (hash (heap s' ! old)) (peakFreq (heap s' ! old))
                     in upd s'' old (\<lambda>x. x\<lparr>onDeathRow := False\<rparr>))
                | None \<Rightarrow> s);
          s2 = upd s1 e (\<lambda>x. x\<lparr>onDeathRow := True\<rparr>)
      in s2\<lparr>deathRow := (deathRow s2)[deathRowPos s2 := Some e],
            deathRowPos := (deathRowPos s2 + 1) mod length (deathRow s2),
            totalEntries := totalEntries s2 - 1\<rparr>)"

subsection \<open>The eviction loops\<close>

text \<open>
  Both loops end on every heap: each turn of \<^verbatim>\<open>evictFromMain\<close> that does not return lowers
  the frequency of one entry, and each turn of \<^verbatim>\<open>evictFromSmall\<close> that does not return
  resets an entry of frequency at least 2. The lemmas before each function are what its
  termination proof needs; \<open>counters\<close> is the view of the heap they talk about.
\<close>

definition counters :: "('k, 'v) entry list \<Rightarrow> (32 word \<times> 32 word) list" where
  "counters h = map (\<lambda>e. (freq e, peakFreq e)) h"

lemma counters_hupd_same:
  "(\<And>x. freq (g x) = freq x \<and> peakFreq (g x) = peakFreq x)
   \<Longrightarrow> counters (hupd h i g) = counters h"
proof (cases "i < length h")
  case True
  assume "\<And>x. freq (g x) = freq x \<and> peakFreq (g x) = peakFreq x"
  with True show ?thesis
    by (simp add: counters_def hupd_def map_update list_update_same_conv)
next
  case False
  then show ?thesis by (simp add: hupd_def list_update_beyond)
qed

lemma length_hupd [simp]: "length (hupd h i g) = length h"
  by (simp add: hupd_def)

lemma counters_pushBack: "counters (fst (pushBack h l e)) = counters h"
  by (simp add: pushBack_def Let_def counters_hupd_same split: option.splits)

lemma counters_list_remove: "counters (fst (list_remove h l e)) = counters h"
  by (simp add: list_remove_def Let_def counters_hupd_same case_prod_beta split: option.splits)

lemma length_pushBack [simp]: "length (fst (pushBack h l e)) = length h"
  by (simp add: pushBack_def Let_def split: option.splits)

lemma length_list_remove [simp]: "length (fst (list_remove h l e)) = length h"
  by (simp add: list_remove_def Let_def  case_prod_beta split: option.splits)


lemma counters_upd_same:
  "(\<And>x. freq (g x) = freq x \<and> peakFreq (g x) = peakFreq x)
   \<Longrightarrow> counters (heap (upd s a g)) = counters (heap s)"
  by (simp add: upd_def counters_hupd_same)

lemma counters_small_pushBack [simp]: "counters (heap (small_pushBack s e)) = counters (heap s)"
  using counters_pushBack [of "heap s" "small s" e]
  by (simp add: small_pushBack_def case_prod_beta)

lemma counters_main_pushBack [simp]: "counters (heap (main_pushBack s e)) = counters (heap s)"
  using counters_pushBack [of "heap s" "main s" e]
  by (simp add: main_pushBack_def case_prod_beta)

lemma counters_small_remove [simp]: "counters (heap (small_remove s e)) = counters (heap s)"
  using counters_list_remove [of "heap s" "small s" e]
  by (simp add: small_remove_def case_prod_beta)

lemma counters_main_remove [simp]: "counters (heap (main_remove s e)) = counters (heap s)"
  using counters_list_remove [of "heap s" "main s" e]
  by (simp add: main_remove_def case_prod_beta)

lemma heap_addToGhost [simp]: "heap (addToGhost B s h pf) = heap s"
  by (simp add: addToGhost_def Let_def)

lemma counters_sendToDeathRow [simp]: "counters (heap (sendToDeathRow B s e)) = counters (heap s)"
  by (simp add: sendToDeathRow_def Let_def counters_upd_same split: option.splits)

lemma length_counters [simp]: "length (counters h) = length h"
  by (simp add: counters_def)

lemma counters_upd_freq:
  "counters (heap (upd s a (\<lambda>x. x\<lparr>freq := f\<rparr>))) =
     (counters (heap s))[a := (f, peakFreq (heap s ! a))]"
  by (cases "a < length (heap s)")
     (simp_all add: upd_def hupd_def counters_def map_update list_update_beyond)

text \<open>The sum of the frequency counters of the heap.\<close>

definition freqSum :: "(32 word \<times> 32 word) list \<Rightarrow> nat" where
  "freqSum cs = sum_list (map (\<lambda>c. unat (fst c)) cs)"

lemma freqSum_decrement:
  assumes "a < length cs" and "fst (cs ! a) \<noteq> 0"
  shows "freqSum (cs[a := (fst (cs ! a) - 1, p)]) < freqSum cs"
proof -
  let ?xs = "map (\<lambda>c. unat (fst c)) cs"
  have pos: "0 < unat (fst (cs ! a))"
    using assms(2) by (simp add: unat_gt_0)
  have le: "?xs ! a \<le> sum_list ?xs"
    using assms(1) by (simp add: member_le_sum_list)
  have "freqSum (cs[a := (fst (cs ! a) - 1, p)]) = sum_list (?xs[a := unat (fst (cs ! a) - 1)])"
    by (simp add: freqSum_def map_update)
  also have "\<dots> = sum_list ?xs + unat (fst (cs ! a) - 1) - ?xs ! a"
    using assms(1) by (simp add: sum_list_update)
  also have "\<dots> < sum_list ?xs"
    using pos le assms by (simp add: unat_minus_one)
  finally show ?thesis by (simp add: freqSum_def)
qed

lemma second_chance_decreases:
  assumes "e < length (heap s)" and "freq (heap s ! e) \<noteq> 0"
  shows "freqSum (counters (heap
            (upd (main_remove s e) e (\<lambda>x. x\<lparr>freq := freq (heap s ! e) - 1\<rparr>))))
         < freqSum (counters (heap s))"
proof -
  let ?s2 = "upd (main_remove s e) e (\<lambda>x. x\<lparr>freq := freq (heap s ! e) - 1\<rparr>)"
  have "counters (heap ?s2) =
        (counters (heap s))[e := (fst (counters (heap s) ! e) - 1,
                                  peakFreq (heap (main_remove s e) ! e))]"
    using assms(1) by (simp add: counters_upd_freq) (simp add: counters_def)
  moreover have "fst (counters (heap s) ! e) \<noteq> 0"
    using assms by (simp add: counters_def)
  ultimately show ?thesis
    using assms(1) freqSum_decrement [of e "counters (heap s)"] by simp
qed

function evictFromMain :: "'b bloomOps \<Rightarrow> ('k, 'v, 'b) shard \<Rightarrow> panic + ('k, 'v, 'b) shard" where
  "evictFromMain B s =
     (if len (main s) > 0 then
        (case head (main s) of
           None \<Rightarrow> Inl NilDereference
         | Some e \<Rightarrow>
             if e \<ge> length (heap s) then Inl InvalidPointer
             else
               (let f = freq (heap s ! e) in
                if f = 0 then
                  (let s1 = main_remove s e in
                   if peakFreq (heap s1 ! e) \<ge> 4 then
                     (let s2 = upd s1 e (\<lambda>x. x\<lparr>freq := 1\<rparr>);
                          s3 = upd s2 e (\<lambda>x. x\<lparr>inSmall := True\<rparr>)
                      in Inr (small_pushBack s3 e))
                   else Inr (sendToDeathRow B s1 e))
                else
                  (let s1 = main_remove s e;
                       s2 = upd s1 e (\<lambda>x. x\<lparr>freq := f - 1\<rparr>)
                   in evictFromMain B (main_pushBack s2 e))))
      else Inr s)"
  by pat_completeness auto
termination
  by (relation "measure (\<lambda>(B, s). freqSum (counters (heap s)))")
     (simp_all add: second_chance_decreases not_le)


declare evictFromMain.simps [simp del]

text \<open>Go's integer division truncates towards zero.\<close>

definition go_div :: "int \<Rightarrow> int \<Rightarrow> int" where
  "go_div a b = sgn a * sgn b * (\<bar>a\<bar> div \<bar>b\<bar>)"

text \<open>The number of entries of the heap whose frequency is at least 2.\<close>

definition hotCount :: "(32 word \<times> 32 word) list \<Rightarrow> nat" where
  "hotCount cs = length (filter (\<lambda>c. 2 \<le> fst c) cs)"

lemma hotCount_update_le:
  assumes "2 \<le> fst c \<longrightarrow> 2 \<le> fst (cs ! a)"
  shows "hotCount (cs[a := c]) \<le> hotCount cs"
proof (cases "a < length cs")
  case True
  have "cs = take a cs @ cs ! a # drop (Suc a) cs"
    using True by (simp add: id_take_nth_drop)
  then have "hotCount cs = hotCount (take a cs @ cs ! a # drop (Suc a) cs)" by simp
  moreover have "cs[a := c] = take a cs @ c # drop (Suc a) cs"
    using True by (simp add: upd_conv_take_nth_drop)
  ultimately show ?thesis using assms by (simp add: hotCount_def)
next
  case False
  then show ?thesis by (simp add: list_update_beyond)
qed

lemma hotCount_update_less:
  assumes "a < length cs" and "2 \<le> fst (cs ! a)" and "\<not> 2 \<le> fst c"
  shows "hotCount (cs[a := c]) < hotCount cs"
proof -
  have "cs = take a cs @ cs ! a # drop (Suc a) cs"
    using assms(1) by (simp add: id_take_nth_drop)
  then have "hotCount cs = hotCount (take a cs @ cs ! a # drop (Suc a) cs)" by simp
  moreover have "cs[a := c] = take a cs @ c # drop (Suc a) cs"
    using assms(1) by (simp add: upd_conv_take_nth_drop)
  ultimately show ?thesis using assms by (simp add: hotCount_def)
qed

lemma counters_upd_inSmall [simp]:
  "counters (heap (upd s a (\<lambda>x. x\<lparr>inSmall := b\<rparr>))) = counters (heap s)"
  by (simp add: counters_upd_same)

lemma word_pred_ge2: "(f :: 32 word) \<noteq> 0 \<Longrightarrow> 2 \<le> f - 1 \<Longrightarrow> 2 \<le> f"
  by unat_arith

lemma evictFromMain_hotCount:
  "evictFromMain B s = Inr s' \<Longrightarrow> hotCount (counters (heap s')) \<le> hotCount (counters (heap s))"
proof (induction B s arbitrary: s' rule: evictFromMain.induct)
  case (1 B s)
  show ?case
  proof (cases "len (main s) > 0")
    case False
    with "1.prems" show ?thesis by (simp add: evictFromMain.simps)
  next
    case True
    then obtain e where e: "head (main s) = Some e" "e < length (heap s)"
      using "1.prems" by (subst (asm) evictFromMain.simps) (auto split: option.splits if_splits)
    show ?thesis
    proof (cases "freq (heap s ! e) = 0")
      case True
      have "hotCount ((counters (heap s))[e := (1, p)]) \<le> hotCount (counters (heap s))" for p
        by (rule hotCount_update_le) (simp add: word_le_nat_alt)
      with True \<open>len (main s) > 0\<close> e "1.prems" show ?thesis
        by (subst (asm) evictFromMain.simps)
           (auto simp: Let_def counters_upd_freq split: if_splits)
    next
      case False
      let ?s2 = "upd (main_remove s e) e (\<lambda>x. x\<lparr>freq := freq (heap s ! e) - 1\<rparr>)"
      have rec: "evictFromMain B (main_pushBack ?s2 e) = Inr s'"
        using False \<open>len (main s) > 0\<close> e "1.prems"
        by (subst (asm) evictFromMain.simps) (simp add: Let_def)
      have "hotCount (counters (heap s')) \<le> hotCount (counters (heap (main_pushBack ?s2 e)))"
        using "1.IH" [OF \<open>len (main s) > 0\<close> e(1) _ refl False refl refl rec] e(2) by simp
      also have "\<dots> \<le> hotCount (counters (heap s))"
      proof -
        have "2 \<le> freq (heap s ! e) - 1 \<longrightarrow> 2 \<le> fst (counters (heap s) ! e)"
          using False e(2) word_pred_ge2 [of "freq (heap s ! e)"] by (simp add: counters_def)
        then have "hotCount ((counters (heap s))[e := (freq (heap s ! e) - 1, p)])
                   \<le> hotCount (counters (heap s))" for p
          by (intro hotCount_update_le) simp
        then show ?thesis by (simp add: counters_upd_freq)
      qed
      finally show ?thesis .
    qed
  qed
qed

lemma promote_decreases:
  assumes "e < length (heap s)" and "\<not> freq (heap s ! e) < 2"
  shows "hotCount (counters (heap (upd (small_remove s e) e (\<lambda>x. x\<lparr>freq := 0\<rparr>))))
         < hotCount (counters (heap s))"
proof -
  have "2 \<le> fst (counters (heap s) ! e)"
    using assms by (simp add: counters_def not_less)
  then have "hotCount ((counters (heap s))[e := (0, p)]) < hotCount (counters (heap s))" for p
    using assms(1) by (intro hotCount_update_less) simp_all
  then show ?thesis
    by (simp add: counters_upd_freq)
qed

function evictFromSmall :: "'b bloomOps \<Rightarrow> ('k, 'v, 'b) shard \<Rightarrow> panic + ('k, 'v, 'b) shard" where
  "evictFromSmall B s =
     (let mcap = go_div (capacity s * 9) 10 in
      if len (small s) > 0 then
        (case head (small s) of
           None \<Rightarrow> Inl NilDereference
         | Some e \<Rightarrow>
             if e \<ge> length (heap s) then Inl InvalidPointer
             else
               (let f = freq (heap s ! e) in
                if f < 2 then Inr (sendToDeathRow B (small_remove s e) e)
                else
                  (let s1 = small_remove s e;
                       s2 = upd s1 e (\<lambda>x. x\<lparr>freq := 0\<rparr>);
                       s3 = upd s2 e (\<lambda>x. x\<lparr>inSmall := False\<rparr>);
                       s4 = main_pushBack s3 e
                   in if len (main s4) > mcap then
                        (case evictFromMain B s4 of
                           Inl p \<Rightarrow> Inl p
                         | Inr s5 \<Rightarrow> evictFromSmall B s5)
                      else evictFromSmall B s4)))
      else Inr s)"
  by pat_completeness auto
termination
proof (relation "measure (\<lambda>(B, s). hotCount (counters (heap s)))", goal_cases)
  case 1
  show ?case by simp
next
  case (2 B s mcap e f s1 s2 s3 s4 s5)
  have "hotCount (counters (heap s5)) \<le> hotCount (counters (heap s4))"
    using 2 evictFromMain_hotCount by blast
  also have "\<dots> < hotCount (counters (heap s))"
    using 2 promote_decreases [of e s] by (simp add: not_le)
  finally show ?case by simp
next
  case (3 B s mcap e f s1 s2 s3 s4)
  then show ?case
    using promote_decreases [of e s] by (simp add: not_le)
qed

declare evictFromSmall.simps [simp del]

subsection \<open>The operations of a shard\<close>

text \<open>
  The result of a read is the value (\<open>None\<close>: the zero value of the value type) and the
  found flag, with the shard after the read.
\<close>

fun clearFirst :: "addr option list \<Rightarrow> addr \<Rightarrow> addr option list" where
  "clearFirst [] e = []"
| "clearFirst (x # xs) e = (if x = Some e then None # xs else x # clearFirst xs e)"

definition resurrectFromDeathRow ::
  "('k, 'v, 'b) shard \<Rightarrow> 'k \<Rightarrow> ('v option \<times> bool) \<times> ('k, 'v, 'b) shard" where
  "resurrectFromDeathRow s k =
     (case map_of (entries s) k of
        None \<Rightarrow> ((None, False), s)
      | Some e \<Rightarrow>
          if \<not> onDeathRow (heap s ! e) then ((None, True), s)
          else
            (let s1 = s\<lparr>deathRow := clearFirst (deathRow s) e\<rparr>;
                 s2 = upd s1 e (\<lambda>x. x\<lparr>onDeathRow := False\<rparr>);
                 s3 = upd s2 e (\<lambda>x. x\<lparr>inSmall := False\<rparr>);
                 s4 = upd s3 e (\<lambda>x. x\<lparr>freq := 3\<rparr>);
                 s5 = upd s4 e (\<lambda>x. x\<lparr>peakFreq := 3\<rparr>);
                 s6 = main_pushBack s5 e;
                 s7 = s6\<lparr>totalEntries := totalEntries s6 + 1\<rparr>
             in ((Some (evalue (heap s7 ! e)), True), s7)))"

definition shard_get ::
  "('k, 'v, 'b) shard \<Rightarrow> 'k \<Rightarrow> int \<Rightarrow> ('v option \<times> bool) \<times> ('k, 'v, 'b) shard" where
  "shard_get s k now =
     (case map_of (entries s) k of
        None \<Rightarrow> ((None, False), s)
      | Some e \<Rightarrow>
          if onDeathRow (heap s ! e) then resurrectFromDeathRow s k
          else if expiryNano (heap s ! e) \<noteq> 0 \<and> now > expiryNano (heap s ! e) then
            ((None, False), s)
          else (let s1 = upd s e bumpFreq in ((Some (evalue (heap s1 ! e)), True), s1)))"

definition newEntry :: "'k \<Rightarrow> 'v \<Rightarrow> int \<Rightarrow> ('k, 'v) entry" where
  "newEntry k v ex =
     \<lparr>key = k, evalue = v, prev = None, nxt = None, hash = 0, expiryNano = ex,
      freq = 0, peakFreq = 0, inSmall = False, onDeathRow = False\<rparr>"

text \<open>
  The blocks of \<^verbatim>\<open>setWithHash\<close> for a key that the map does not hold. The new entry is
  allocated at the end of the heap, with its hash, before the eviction runs, as
  \<^verbatim>\<open>ent := &entry{...}\<close> is.
\<close>

definition allocEntry ::
  "('k, 'v, 'b) shard \<Rightarrow> 'k \<Rightarrow> 'v \<Rightarrow> int \<Rightarrow> 64 word \<Rightarrow> ('k, 'v, 'b) shard" where
  "allocEntry s k v ex h =
     (let e = length (heap s);
          s0 = s\<lparr>heap := heap s @ [newEntry k v ex]\<rparr>
      in upd s0 e (\<lambda>x. x\<lparr>hash := h\<rparr>))"

text \<open>
  The ghost check of a full cache: a hash that a ghost filter holds is admitted to Main,
  with the frequency that the ghost ring remembers, if any.
\<close>

definition admitGhost ::
  "'b bloomOps \<Rightarrow> ('k, 'v, 'b) shard \<Rightarrow> addr \<Rightarrow> 64 word \<Rightarrow> ('k, 'v, 'b) shard" where
  "admitGhost B s e h =
     (let inGhost = (bfContains B (ghostActive s) h \<or> bfContains B (ghostAging s) h);
          s3 = upd s e (\<lambda>x. x\<lparr>inSmall := \<not> inGhost\<rparr>)
      in if \<not> inSmall (heap s3 ! e) then
           (case ring_lookup (ghostFreqRng s3) h of
              Some peak \<Rightarrow>
                upd (upd s3 e (\<lambda>x. x\<lparr>freq := peak\<rparr>)) e (\<lambda>x. x\<lparr>peakFreq := peak\<rparr>)
            | None \<Rightarrow> s3)
         else s3)"

definition evictForNew :: "'b bloomOps \<Rightarrow> ('k, 'v, 'b) shard \<Rightarrow> panic + ('k, 'v, 'b) shard" where
  "evictForNew B s =
     (if len (main s) > 0 \<and> len (small s) \<le> smallThresh s then evictFromMain B s
      else if len (small s) > 0 then evictFromSmall B s
      else Inr s)"

text \<open>\<^verbatim>\<open>s.entries.Store(key, ent)\<close> and \<^verbatim>\<open>s.parent.totalEntries.Add(1)\<close>.\<close>

definition storeNew :: "('k, 'v, 'b) shard \<Rightarrow> 'k \<Rightarrow> addr \<Rightarrow> ('k, 'v, 'b) shard" where
  "storeNew s k e =
     (let s1 = s\<lparr>entries := AList.update k e (entries s)\<rparr>
      in s1\<lparr>totalEntries := totalEntries s1 + 1\<rparr>)"

definition setWithHash ::
  "'b bloomOps \<Rightarrow> ('k, 'v, 'b) shard \<Rightarrow> 'k \<Rightarrow> 'v \<Rightarrow> int \<Rightarrow> 64 word \<Rightarrow> panic + ('k, 'v, 'b) shard" where
  "setWithHash B s k v ex hsh =
     (case map_of (entries s) k of
        Some e \<Rightarrow>
          (let s1 = upd s e (\<lambda>x. x\<lparr>evalue := v\<rparr>);
               s2 = upd s1 e (\<lambda>x. x\<lparr>expiryNano := ex\<rparr>)
           in Inr (upd s2 e bumpFreq))
      | None \<Rightarrow>
          (let e = length (heap s);
               h = (if hsh = 0 then hasher s k else hsh);
               s1 = allocEntry s k v ex h;
               full = (totalEntries s1 \<ge> parentCapacity s1)
           in if \<not> warmupComplete s1 \<and> \<not> full then
                (let s2 = upd s1 e (\<lambda>x. x\<lparr>inSmall := True\<rparr>);
                     s3 = small_pushBack s2 e
                 in Inr (storeNew s3 k e))
              else
                (let s2 = s1\<lparr>warmupComplete := True\<rparr> in
                 case (if full then evictForNew B (admitGhost B s2 e h)
                       else Inr (upd s2 e (\<lambda>x. x\<lparr>inSmall := True\<rparr>))) of
                   Inl p \<Rightarrow> Inl p
                 | Inr s5 \<Rightarrow>
                     (let s6 = (if inSmall (heap s5 ! e) then small_pushBack s5 e
                                else main_pushBack s5 e)
                      in Inr (storeNew s6 k e)))))"

definition shard_delete :: "('k, 'v, 'b) shard \<Rightarrow> 'k \<Rightarrow> ('k, 'v, 'b) shard" where
  "shard_delete s k =
     (case map_of (entries s) k of
        None \<Rightarrow> s
      | Some e \<Rightarrow>
          (let s1 = (if inSmall (heap s ! e) then small_remove s e else main_remove s e);
               s2 = s1\<lparr>entries := AList.delete k (entries s1)\<rparr>
           in s2\<lparr>totalEntries := totalEntries s2 - 1\<rparr>))"

definition emptyList :: entryList where
  "emptyList = \<lparr>head = None, tail = None, len = 0\<rparr>"

text \<open>\<^verbatim>\<open>shard.flush\<close> returns the number of keys the map held.\<close>

definition shard_flush :: "'b bloomOps \<Rightarrow> ('k, 'v, 'b) shard \<Rightarrow> nat \<times> ('k, 'v, 'b) shard" where
  "shard_flush B s =
     (length (entries s),
      s\<lparr>entries := [], small := emptyList, main := emptyList,
        ghostActive := bfReset B (ghostActive s), ghostAging := bfReset B (ghostAging s),
        ghostFreqRng := emptyRing,
        deathRow := map (\<lambda>_. None) (deathRow s), deathRowPos := 0\<rparr>)"

subsection \<open>A cache of one shard\<close>

text \<open>
  \<^verbatim>\<open>newS3FIFO\<close> rounds the number of shards down to a power of two; \<open>procs\<close> is
  \<^verbatim>\<open>runtime.GOMAXPROCS(0)\<close>.
\<close>

fun bitsLen :: "nat \<Rightarrow> nat" where
  "bitsLen n = (if n = 0 then 0 else Suc (bitsLen (n div 2)))"

declare bitsLen.simps [simp del]

definition cacheSize :: "int \<Rightarrow> int" where
  "cacheSize sz = (if sz \<le> 0 then 16384 else sz)"

definition numShards :: "int \<Rightarrow> int \<Rightarrow> int" where
  "numShards procs sz0 =
     (let sz = cacheSize sz0;
          n = min (min (max (procs * 16) (go_div sz 256)) (max 1 (go_div sz 1024))) 2048
      in 2 ^ (bitsLen (nat n) - 1))"

definition shardCapacity :: "int \<Rightarrow> int \<Rightarrow> int" where
  "shardCapacity procs sz =
     go_div (cacheSize sz + numShards procs sz - 1) (numShards procs sz)"

text \<open>
  One shard as \<^verbatim>\<open>newS3FIFO\<close> builds it, with the counter and the capacity of its cache.
  The two fresh bloom filters and the hasher are arguments.
\<close>

definition newShard ::
  "'b \<Rightarrow> 'b \<Rightarrow> ('k \<Rightarrow> 64 word) \<Rightarrow> int \<Rightarrow> int \<Rightarrow> ('k, 'v, 'b) shard" where
  "newShard bf1 bf2 hf scap sz =
     \<lparr>heap = [], entries = [], small = emptyList, main = emptyList,
      ghostActive = bf1, ghostAging = bf2, ghostFreqRng = emptyRing, ghostCap = scap,
      hasher = hf, deathRow = replicate 8 None, deathRowPos = 0,
      capacity = scap, smallThresh = go_div (scap * 247) 1000, warmupComplete = False,
      totalEntries = 0, parentCapacity = sz\<rparr>"

text \<open>
  The operations of the cache, on a cache of one shard. \<^verbatim>\<open>s3fifo.flush\<close> flushes the
  shard and stores 0 in the counter.
\<close>

datatype ('k, 'v) cache_op =
    Set 'k 'v int "64 word"
  | Get 'k int
  | Delete 'k
  | Flush

definition s3fifo_flush :: "'b bloomOps \<Rightarrow> ('k, 'v, 'b) shard \<Rightarrow> nat \<times> ('k, 'v, 'b) shard" where
  "s3fifo_flush B s = (let (n, s1) = shard_flush B s in (n, s1\<lparr>totalEntries := 0\<rparr>))"

fun step :: "'b bloomOps \<Rightarrow> ('k, 'v) cache_op \<Rightarrow> ('k, 'v, 'b) shard \<Rightarrow> panic + ('k, 'v, 'b) shard" where
  "step B (Set k v ex hsh) s = setWithHash B s k v ex hsh"
| "step B (Get k now) s = Inr (snd (shard_get s k now))"
| "step B (Delete k) s = Inr (shard_delete s k)"
| "step B Flush s = Inr (snd (s3fifo_flush B s))"

fun run :: "'b bloomOps \<Rightarrow> ('k, 'v) cache_op list \<Rightarrow> ('k, 'v, 'b) shard \<Rightarrow> panic + ('k, 'v, 'b) shard" where
  "run B [] s = Inr s"
| "run B (x # xs) s = (case step B x s of Inl p \<Rightarrow> Inl p | Inr s' \<Rightarrow> run B xs s')"

subsection \<open>Named steps of the eviction loops\<close>

text \<open>
  The three things the loops do to a queue head, as definitions of their own:
  the promotion of \<^verbatim>\<open>evictFromSmall\<close>, and the demotion and the second chance of
  \<^verbatim>\<open>evictFromMain\<close>.
\<close>

definition promoteToMain :: "('k, 'v, 'b) shard \<Rightarrow> addr \<Rightarrow> ('k, 'v, 'b) shard" where
  "promoteToMain s e =
     (let s1 = small_remove s e;
          s2 = upd s1 e (\<lambda>x. x\<lparr>freq := 0\<rparr>);
          s3 = upd s2 e (\<lambda>x. x\<lparr>inSmall := False\<rparr>)
      in main_pushBack s3 e)"

definition demoteToSmall :: "('k, 'v, 'b) shard \<Rightarrow> addr \<Rightarrow> ('k, 'v, 'b) shard" where
  "demoteToSmall s e =
     (let s1 = main_remove s e;
          s2 = upd s1 e (\<lambda>x. x\<lparr>freq := 1\<rparr>);
          s3 = upd s2 e (\<lambda>x. x\<lparr>inSmall := True\<rparr>)
      in small_pushBack s3 e)"

definition secondChance :: "('k, 'v, 'b) shard \<Rightarrow> addr \<Rightarrow> ('k, 'v, 'b) shard" where
  "secondChance s e =
     (let f = freq (heap s ! e);
          s1 = main_remove s e;
          s2 = upd s1 e (\<lambda>x. x\<lparr>freq := f - 1\<rparr>)
      in main_pushBack s2 e)"

subsection \<open>The entries a queue links\<close>

text \<open>
  The addresses reached from the head of a queue along the \<^verbatim>\<open>next\<close> links. A queue links
  at most as many entries as the heap holds, which bounds the walk.
\<close>

fun walk :: "('k, 'v) entry list \<Rightarrow> nat \<Rightarrow> addr option \<Rightarrow> addr list" where
  "walk h 0 p = []"
| "walk h (Suc n) None = []"
| "walk h (Suc n) (Some a) = (if a < length h then a # walk h n (nxt (h ! a)) else [])"

definition queue :: "('k, 'v) entry list \<Rightarrow> entryList \<Rightarrow> addr list" where
  "queue h l = walk h (length h) (head l)"

subsection \<open>The bounds of the frequency counters\<close>

text \<open>
  \<open>okc\<close> is the bound on a pair of frequency and peak frequency. \<open>freqInv\<close> says that
  every entry of the heap and every slot of the ghost ring satisfy it, and that the death
  row and the key map point into the heap.
\<close>

definition okc :: "32 word \<times> 32 word \<Rightarrow> bool" where
  "okc c = (fst c \<le> maxFreq \<and> fst c \<le> snd c \<and> snd c \<le> maxFreq)"

definition freqInv :: "('k, 'v, 'b) shard \<Rightarrow> bool" where
  "freqInv s =
     ((\<forall>c \<in> set (counters (heap s)). okc c)
      \<and> (\<forall>f \<in> set (freqs (ghostFreqRng s)). f \<le> maxFreq)
      \<and> (\<forall>a. Some a \<in> set (deathRow s) \<longrightarrow> a < length (heap s))
      \<and> deathRowPos s < length (deathRow s)
      \<and> (\<forall>a \<in> snd ` set (entries s). a < length (heap s)))"

subsection \<open>Concrete caches\<close>

text \<open>
  Modelled from the spec: the bloom filter, whose source file is not at hand. It is used
  for the concrete runs only, as a set of hashes that answers membership exactly (a bloom
  filter that happens to give no false positive), with \<open>entries\<close> the number of hashes added.
\<close>

definition listBloom :: "(64 word list) bloomOps" where
  "listBloom =
     \<lparr>bfContains = (\<lambda>b h. h \<in> set b), bfAdd = (\<lambda>b h. h # b),
      bfReset = (\<lambda>_. []), bfEntries = (\<lambda>b. int (length b))\<rparr>"

text \<open>
  A cache of size 1 has one shard of capacity 1 (\<open>numShards\<close> and \<open>shardCapacity\<close> at
  size 1). \<open>runFrom ops\<close> is that cache after the operations \<open>ops\<close>.
\<close>

definition cache1 :: "(string, nat, 64 word list) shard" where
  "cache1 = newShard [] [] (\<lambda>_. 1) 1 1"

definition runFrom :: "(string, nat) cache_op list \<Rightarrow> (string, nat, 64 word list) shard" where
  "runFrom ops = (case run listBloom ops cache1 of Inl p \<Rightarrow> cache1 | Inr s \<Rightarrow> s)"

text \<open>Key \<open>a\<close> is set with expiry 5, then evicted to death row by the set of key \<open>b\<close>.\<close>

definition deathRowState :: "(string, nat, 64 word list) shard" where
  "deathRowState = runFrom [Set ''a'' 1 5 0, Set ''b'' 2 0 0]"

text \<open>Key \<open>a\<close> is set and read four times: the head of Small, with frequency 4.\<close>

definition hotState :: "(string, nat, 64 word list) shard" where
  "hotState = runFrom [Set ''a'' 1 0 0, Get ''a'' 1, Get ''a'' 2, Get ''a'' 3, Get ''a'' 4]"

text \<open>Key \<open>a\<close> is back from death row: the head of Main, with frequency 3.\<close>

definition resurrectedState :: "(string, nat, 64 word list) shard" where
  "resurrectedState = runFrom [Set ''a'' 1 5 0, Set ''b'' 2 0 0, Get ''a'' 10]"

section \<open>Key validation: what the code accepts\<close>

lemma checkChars_Nil: "checkChars [] = None"
  by (simp add: checkChars.simps)

lemma allowedRune_lt: "allowedRune r \<Longrightarrow> r < 128"
  by (auto simp: allowedRune_def)

lemma decode2_ge: "0xC2 \<le> b0 \<Longrightarrow> b0 \<le> 0xDF \<Longrightarrow> 128 \<le> fst (decode2 b0 cs)"
proof -
  assume a: "0xC2 \<le> b0" "b0 \<le> 0xDF"
  then have "2 \<le> b0 mod 32" by presburger
  then have "128 \<le> (b0 mod 32) * 64" by simp
  then show ?thesis
    by (auto simp: decode2_def runeError_def split: list.splits)
qed

lemma decode3_ge: "0xE0 \<le> b0 \<Longrightarrow> b0 \<le> 0xEF \<Longrightarrow> 128 \<le> fst (decode3 b0 cs)"
proof (cases "b0 = 0xE0")
  case True
  have "inRange 0xA0 0xBF c1 \<Longrightarrow> 128 \<le> low6 c1 * 64" for c1
  proof -
    assume "inRange 0xA0 0xBF c1"
    then have "32 \<le> low6 c1" unfolding inRange_def low6_def by presburger
    then show ?thesis by simp
  qed
  then show ?thesis using True
    by (auto simp: decode3_def runeError_def trans_le_add1 split: list.splits)
next
  case False
  assume a: "0xE0 \<le> b0" "b0 \<le> 0xEF"
  with False have "1 \<le> b0 mod 16" by presburger
  then have "128 \<le> (b0 mod 16) * 4096" by simp
  then show ?thesis
    by (auto simp: decode3_def runeError_def split: list.splits)
qed

lemma decode4_ge: "0xF0 \<le> b0 \<Longrightarrow> b0 \<le> 0xF4 \<Longrightarrow> 128 \<le> fst (decode4 b0 cs)"
proof (cases "b0 = 0xF0")
  case True
  have "inRange 0x90 0xBF c1 \<Longrightarrow> 128 \<le> low6 c1 * 4096" for c1
  proof -
    assume "inRange 0x90 0xBF c1"
    then have "16 \<le> low6 c1" unfolding inRange_def low6_def by presburger
    then show ?thesis by simp
  qed
  then show ?thesis using True
    by (auto simp: decode4_def runeError_def trans_le_add1 split: list.splits)
next
  case False
  assume a: "0xF0 \<le> b0" "b0 \<le> 0xF4"
  with False have "1 \<le> b0 mod 8" by presburger
  then have "128 \<le> (b0 mod 8) * 262144" by simp
  then show ?thesis
    by (auto simp: decode4_def runeError_def split: list.splits)
qed

lemma decodeRune_cases:
  "decodeRune (c # cs) = (of_char c, 1) \<and> (of_char c :: nat) < 128
   \<or> 128 \<le> fst (decodeRune (c # cs)) \<and> 128 \<le> (of_char c :: nat)"
  using decode2_ge [of "of_char c" cs] decode3_ge [of "of_char c" cs] decode4_ge [of "of_char c" cs]
  by (simp add: Let_def runeError_def)

lemma checkChars_Cons:
  "checkChars (c # cs) = (if allowedRune (of_char c) then checkChars cs
     else Some (InvalidCharacter (fst (decodeRune (c # cs)))))"
proof (cases "allowedRune (of_char c)")
  case True
  then have "decodeRune (c # cs) = (of_char c, 1)"
    using decodeRune_cases [of c cs] allowedRune_lt [OF True] by auto
  with True show ?thesis
    by (subst checkChars.simps) simp
next
  case False
  have "\<not> allowedRune (fst (decodeRune (c # cs)))"
    using False decodeRune_cases [of c cs] allowedRune_lt [of "fst (decodeRune (c # cs))"] by auto
  then show ?thesis using False
    by (subst checkChars.simps) (simp add: case_prod_beta)
qed

lemma checkChars_iff: "checkChars s = None \<longleftrightarrow> (\<forall>c \<in> set s. allowedRune (of_char c))"
  by (induction s) (simp_all add: checkChars_Nil checkChars_Cons)

lemma ValidateKey_accepts_iff:
  "ValidateKey s = None \<longleftrightarrow> length s \<le> 127 \<and> (\<forall>c \<in> set s. allowedRune (of_char c))"
  by (simp add: ValidateKey_def maxKeyLength_def checkChars_iff)

text \<open>
  Claim C8. The claim says that \<^verbatim>\<open>ValidateKey\<close> returns an error for every empty key.
  The source has no such check: for the empty key the length test passes, the loop over the
  characters does not run, and the nil error is returned.
\<close>

theorem ValidateKey_empty_accepted: "ValidateKey [] = None"
  by (simp add: ValidateKey_def maxKeyLength_def checkChars_Nil)

lemma ValidateKey_path_traversal:
  "ValidateKey ''../../../etc/passwd'' = Some (InvalidCharacter 47)"
  by (simp add: ValidateKey_def maxKeyLength_def allowedRune_def checkChars_Cons)

section \<open>Reading a record that does not decode\<close>

lemma errorsJoin_first:
  "errorsJoin (Some x # es) = Some (Joined (x # List.map_filter (\<lambda>e. e) es))"
  by (simp add: errorsJoin_def List.map_filter_simps)

text \<open>
  Claim C9, as the code has it. When the record of a key opens but does not decode,
  \<^verbatim>\<open>Get\<close> reports not found together with a non-nil error: the decode error joined with the
  close and remove errors, if any. The record's file is removed on the way (best effort:
  when the removal itself fails, its error is joined to the result and the file stays).
\<close>

theorem Store_Get_decode_failure:
  assumes "openFault env (fileName env k) = None"
    and "d (fileName env k) = Some c"
    and "gobDecode env c = Inl decErr"
  shows "rfound (fst (Store_Get env now d k)) = False
       \<and> rvalue (fst (Store_Get env now d k)) = None
       \<and> rerr (fst (Store_Get env now d k)) =
            Some (Joined (DecodeFile decErr #
               List.map_filter (\<lambda>e. e) [map_option OsError (closeFault env (fileName env k)),
                  map_option OsError (fst (osRemove env d (fileName env k)))]))
       \<and> snd (Store_Get env now d k) = snd (osRemove env d (fileName env k))
       \<and> (removeFault env (fileName env k) = None \<longrightarrow>
            snd (Store_Get env now d k) = d((fileName env k) := None))"
  using assms
  by (simp add: Store_Get_def osOpen_def Let_def case_prod_beta miss_def errorsJoin_first)
     (simp add: osRemove_def)

theorem Store_Get_decode_failure_witness:
  "rfound (fst (Store_Get corruptEnv 100 corruptDisk ''k'')) = False
   \<and> rerr (fst (Store_Get corruptEnv 100 corruptDisk ''k'')) =
        Some (Joined [DecodeFile ''unexpected EOF''])
   \<and> snd (Store_Get corruptEnv 100 corruptDisk ''k'') = Map.empty"
  using Store_Get_decode_failure
    [of corruptEnv "''k''" corruptDisk "''garbage''" "''unexpected EOF''" 100]
  by (simp add: corruptEnv_def corruptDisk_def osRemove_def List.map_filter_simps)

text \<open>
  Claim C9, as stated: the call is a plain miss, not a failure. On the corrupt record the
  call does return an error.
\<close>

theorem Store_Get_decode_failure_not_plain_miss:
  "\<not> (rfound (fst (Store_Get corruptEnv 100 corruptDisk ''k'')) = False
      \<and> rerr (fst (Store_Get corruptEnv 100 corruptDisk ''k'')) = None)"
  by (simp add: Store_Get_def osOpen_def Let_def case_prod_beta miss_def errorsJoin_first
      corruptEnv_def corruptDisk_def)

section \<open>The shard: updates in place, resurrection, eviction steps\<close>

lemma hupd_hupd: "hupd (hupd h e f) e g = hupd h e (\<lambda>x. g (f x))"
  by (cases "e < length h") (simp_all add: hupd_def list_update_beyond)

lemma upd_upd: "upd (upd s e f) e g = upd s e (\<lambda>x. g (f x))"
  by (simp add: upd_def hupd_hupd)

text \<open>
  Claim C10. A set of a key that the map holds writes the value and the expiry of its entry
  and counts a hit (\<open>bumpFreq\<close>), and changes nothing else: the result is the shard with the
  one heap cell replaced. The links of the entry, its queue flag and its death-row flag are
  as before, so it keeps its place in Small, Main or the death row and is not resurrected;
  no queue, no death-row slot and no counter of the shard changes, and nothing is evicted.
\<close>

theorem setWithHash_existing:
  assumes "map_of (entries s) k = Some e"
  shows "setWithHash B s k v ex hsh =
           Inr (s\<lparr>heap := (heap s)[e := bumpFreq ((heap s ! e)\<lparr>evalue := v, expiryNano := ex\<rparr>)]\<rparr>)
         \<and> prev (bumpFreq x) = prev x \<and> nxt (bumpFreq x) = nxt x
         \<and> inSmall (bumpFreq x) = inSmall x \<and> onDeathRow (bumpFreq x) = onDeathRow x
         \<and> key (bumpFreq x) = key x \<and> hash (bumpFreq x) = hash x
         \<and> evalue (bumpFreq x) = evalue x \<and> expiryNano (bumpFreq x) = expiryNano x"
  using assms
  by (simp add: setWithHash_def Let_def upd_upd) (simp add: upd_def hupd_def bumpFreq_def Let_def)

theorem setWithHash_existing_witness:
  "map_of (entries deathRowState) ''a'' = Some 0
   \<and> setWithHash listBloom deathRowState ''a'' 7 0 0 =
       Inr (deathRowState
            \<lparr>heap := (heap deathRowState)
               [0 := bumpFreq ((heap deathRowState ! 0)
                     \<lparr>evalue := 7, expiryNano := 0\<rparr>)]\<rparr>)
   \<and> onDeathRow (heap deathRowState ! 0)"
proof -
  have h: "map_of (entries deathRowState) ''a'' = Some 0"
    by code_simp
  have d: "onDeathRow (heap deathRowState ! 0)"
    by code_simp
  show ?thesis
    using setWithHash_existing [OF h, of listBloom 7 0 0] h d by blast
qed


lemma clearFirst_first:
  "i < length dr \<Longrightarrow> dr ! i = Some e \<Longrightarrow> (\<forall>j<i. dr ! j \<noteq> Some e)
   \<Longrightarrow> clearFirst dr e = dr[i := None]"
proof (induction dr arbitrary: i)
  case Nil
  then show ?case by simp
next
  case (Cons x xs)
  show ?case
  proof (cases i)
    case 0
    with Cons.prems show ?thesis by simp
  next
    case (Suc n)
    with Cons.prems have "x \<noteq> Some e" by auto
    moreover have "clearFirst xs e = xs[n := None]"
      using Cons.prems Suc by (intro Cons.IH) auto
    ultimately show ?thesis using Suc by simp
  qed
qed

lemma pushBack_fields:
  assumes "e < length h"
  shows "tail (snd (pushBack h l e)) = Some e"
    and "len (snd (pushBack h l e)) = len l + 1"
    and "head (snd (pushBack h l e)) = (if tail l = None then Some e else head l)"
    and "prev (fst (pushBack h l e) ! e) = tail l"
    and "tail l \<noteq> Some e \<Longrightarrow> nxt (fst (pushBack h l e) ! e) = None"
    and "tail l = Some t \<Longrightarrow> t < length h \<Longrightarrow> nxt (fst (pushBack h l e) ! t) = Some e"
    and "freq (fst (pushBack h l e) ! e) = freq (h ! e)"
    and "peakFreq (fst (pushBack h l e) ! e) = peakFreq (h ! e)"
    and "inSmall (fst (pushBack h l e) ! e) = inSmall (h ! e)"
    and "onDeathRow (fst (pushBack h l e) ! e) = onDeathRow (h ! e)"
    and "evalue (fst (pushBack h l e) ! e) = evalue (h ! e)"
  using assms
  by (auto simp: pushBack_def Let_def hupd_def nth_list_update split: option.splits)

text \<open>
  Claim C6. A read of a key whose entry is on death row resurrects it: the first death-row
  slot that holds the entry is cleared, both flags are reset, frequency and peak frequency
  are 3, the entry is the new tail of Main (linked after the old tail), the live count
  grows by 1, and the read returns the value with found = true.
\<close>

theorem get_resurrects:
  assumes "map_of (entries s) k = Some e" and "e < length (heap s)"
    and "onDeathRow (heap s ! e)"
  shows "fst (shard_get s k now) = (Some (evalue (heap s ! e)), True)
       \<and> deathRow (snd (shard_get s k now)) = clearFirst (deathRow s) e
       \<and> (\<forall>i. i < length (deathRow s) \<and> deathRow s ! i = Some e
               \<and> (\<forall>j<i. deathRow s ! j \<noteq> Some e)
             \<longrightarrow> deathRow (snd (shard_get s k now)) = (deathRow s)[i := None])
       \<and> \<not> onDeathRow (heap (snd (shard_get s k now)) ! e)
       \<and> \<not> inSmall (heap (snd (shard_get s k now)) ! e)
       \<and> freq (heap (snd (shard_get s k now)) ! e) = 3
       \<and> peakFreq (heap (snd (shard_get s k now)) ! e) = 3
       \<and> tail (main (snd (shard_get s k now))) = Some e
       \<and> prev (heap (snd (shard_get s k now)) ! e) = tail (main s)
       \<and> (tail (main s) \<noteq> Some e \<longrightarrow> nxt (heap (snd (shard_get s k now)) ! e) = None)
       \<and> (\<forall>t. tail (main s) = Some t \<and> t < length (heap s)
             \<longrightarrow> nxt (heap (snd (shard_get s k now)) ! t) = Some e)
       \<and> head (main (snd (shard_get s k now))) =
           (if tail (main s) = None then Some e else head (main s))
       \<and> len (main (snd (shard_get s k now))) = len (main s) + 1
       \<and> totalEntries (snd (shard_get s k now)) = totalEntries s + 1
       \<and> small (snd (shard_get s k now)) = small s
       \<and> entries (snd (shard_get s k now)) = entries s"
proof -
  let ?h = "hupd (heap s) e (\<lambda>x. x\<lparr>onDeathRow := False, inSmall := False, freq := 3, peakFreq := 3\<rparr>)"
  let ?pb = "pushBack ?h (main s) e"
  have len: "e < length ?h" using assms(2) by simp
  have he: "?h ! e = (heap s ! e)\<lparr>onDeathRow := False, inSmall := False, freq := 3, peakFreq := 3\<rparr>"
    using assms(2) by (simp add: hupd_def)
  have g: "shard_get s k now =
        ((Some (evalue (fst ?pb ! e)), True),
         s\<lparr>deathRow := clearFirst (deathRow s) e, heap := fst ?pb, main := snd ?pb,
           totalEntries := totalEntries s + 1\<rparr>)"
    using assms
    by (simp add: shard_get_def resurrectFromDeathRow_def Let_def hupd_hupd main_pushBack_def
        case_prod_beta upd_def)
  show ?thesis
    unfolding g
    using pushBack_fields [OF len, of "main s"] he clearFirst_first [of _ "deathRow s" e]
    by simp
qed


theorem get_resurrects_witness:
  "map_of (entries deathRowState) ''a'' = Some 0 \<and> 0 < length (heap deathRowState)
   \<and> onDeathRow (heap deathRowState ! 0)
   \<and> fst (shard_get deathRowState ''a'' 10) = (Some (evalue (heap deathRowState ! 0)), True)
   \<and> totalEntries (snd (shard_get deathRowState ''a'' 10)) = totalEntries deathRowState + 1
   \<and> freq (heap (snd (shard_get deathRowState ''a'' 10)) ! 0) = 3"
proof -
  have h1: "map_of (entries deathRowState) ''a'' = Some 0" by code_simp
  have h2: "0 < length (heap deathRowState)" by code_simp
  have h3: "onDeathRow (heap deathRowState ! 0)" by code_simp
  show ?thesis
    using get_resurrects [OF h1 h2 h3, of 10] h1 h2 h3 by blast
qed

lemma nth_counters: "e < length h \<Longrightarrow> counters h ! e = (freq (h ! e), peakFreq (h ! e))"
  by (simp add: counters_def)

lemma peakFreq_main_remove:
  "e < length (heap s) \<Longrightarrow> peakFreq (heap (main_remove s a) ! e) = peakFreq (heap s ! e)"
  using counters_main_remove [of s a] nth_counters [of e "heap s"]
    nth_counters [of e "heap (main_remove s a)"]
  by (metis length_counters snd_conv)

lemma list_remove_fields:
  assumes "e < length h"
  shows "len (snd (list_remove h l e)) = len l - 1"
    and "prev (fst (list_remove h l e) ! e) = None"
    and "nxt (fst (list_remove h l e) ! e) = None"
    and "prev (h ! e) = None \<Longrightarrow> head (snd (list_remove h l e)) = nxt (h ! e)"
    and "length (fst (list_remove h l e)) = length h"
  using assms
  by (auto simp: list_remove_def Let_def hupd_def nth_list_update case_prod_beta
      split: option.splits)

lemma length_heap_upd [simp]: "length (heap (upd s a g)) = length (heap s)"
  by (simp add: upd_def)

lemma length_heap_main_remove [simp]: "length (heap (main_remove s e)) = length (heap s)"
  by (simp add: main_remove_def case_prod_beta)

lemma length_heap_small_remove [simp]: "length (heap (small_remove s e)) = length (heap s)"
  by (simp add: small_remove_def case_prod_beta)

lemma length_heap_main_pushBack [simp]: "length (heap (main_pushBack s e)) = length (heap s)"
  by (simp add: main_pushBack_def case_prod_beta)

lemma length_heap_small_pushBack [simp]: "length (heap (small_pushBack s e)) = length (heap s)"
  by (simp add: small_pushBack_def case_prod_beta)

lemma length_heap_sendToDeathRow [simp]:
  "length (heap (sendToDeathRow B s e)) = length (heap s)"
  by (simp add: sendToDeathRow_def Let_def split: option.splits)

lemma demote_effect:
  assumes "e < length (heap s)"
  shows "freq (heap (small_pushBack (upd (upd (main_remove s e) e (\<lambda>x. x\<lparr>freq := 1\<rparr>)) e
            (\<lambda>x. x\<lparr>inSmall := True\<rparr>)) e) ! e) = 1"
    and "inSmall (heap (small_pushBack (upd (upd (main_remove s e) e (\<lambda>x. x\<lparr>freq := 1\<rparr>)) e
            (\<lambda>x. x\<lparr>inSmall := True\<rparr>)) e) ! e)"
    and "tail (small (small_pushBack (upd (upd (main_remove s e) e (\<lambda>x. x\<lparr>freq := 1\<rparr>)) e
            (\<lambda>x. x\<lparr>inSmall := True\<rparr>)) e)) = Some e"
    and "len (small (small_pushBack (upd (upd (main_remove s e) e (\<lambda>x. x\<lparr>freq := 1\<rparr>)) e
            (\<lambda>x. x\<lparr>inSmall := True\<rparr>)) e)) = len (small s) + 1"
    and "len (main (small_pushBack (upd (upd (main_remove s e) e (\<lambda>x. x\<lparr>freq := 1\<rparr>)) e
            (\<lambda>x. x\<lparr>inSmall := True\<rparr>)) e)) = len (main s) - 1"
    and "totalEntries (small_pushBack (upd (upd (main_remove s e) e (\<lambda>x. x\<lparr>freq := 1\<rparr>)) e
            (\<lambda>x. x\<lparr>inSmall := True\<rparr>)) e) = totalEntries s"
proof -
  let ?s1 = "main_remove s e"
  let ?s3 = "upd (upd ?s1 e (\<lambda>x. x\<lparr>freq := 1\<rparr>)) e (\<lambda>x. x\<lparr>inSmall := True\<rparr>)"
  have l3: "e < length (heap ?s3)" using assms by simp
  have h3: "heap ?s3 ! e = (heap ?s1 ! e)\<lparr>freq := 1, inSmall := True\<rparr>"
    using assms by (simp add: upd_def hupd_def)
  have sm: "small ?s3 = small s" "totalEntries ?s3 = totalEntries s"
    "len (main ?s3) = len (main s) - 1"
    using list_remove_fields(1) [OF assms, of "main s"]
    by (simp_all add: upd_def main_remove_def case_prod_beta)
  show "freq (heap (small_pushBack ?s3 e) ! e) = 1"
    using pushBack_fields(7) [OF l3, of "small ?s3"] h3
    by (simp add: small_pushBack_def case_prod_beta)
  show "inSmall (heap (small_pushBack ?s3 e) ! e)"
    using pushBack_fields(9) [OF l3, of "small ?s3"] h3
    by (simp add: small_pushBack_def case_prod_beta)
  show "tail (small (small_pushBack ?s3 e)) = Some e"
    using pushBack_fields(1) [OF l3, of "small ?s3"]
    by (simp add: small_pushBack_def case_prod_beta)
  show "len (small (small_pushBack ?s3 e)) = len (small s) + 1"
    using pushBack_fields(2) [OF l3, of "small ?s3"] sm
    by (simp add: small_pushBack_def case_prod_beta)
  show "len (main (small_pushBack ?s3 e)) = len (main s) - 1"
    using sm by (simp add: small_pushBack_def case_prod_beta)
  show "totalEntries (small_pushBack ?s3 e) = totalEntries s"
    using sm by (simp add: small_pushBack_def case_prod_beta)
qed

lemma sendToDeathRow_effect:
  assumes "e < length (heap s)" and "deathRowPos s < length (deathRow s)"
  shows "onDeathRow (heap (sendToDeathRow B s e) ! e)"
    and "deathRow (sendToDeathRow B s e) ! deathRowPos s = Some e"
    and "deathRowPos (sendToDeathRow B s e) = (deathRowPos s + 1) mod length (deathRow s)"
    and "totalEntries (sendToDeathRow B s e) = totalEntries s - 1"
    and "small (sendToDeathRow B s e) = small s"
    and "main (sendToDeathRow B s e) = main s"
  using assms
  by (auto simp: sendToDeathRow_def Let_def upd_def hupd_def addToGhost_def
      split: option.splits)

lemma freq_main_remove:
  "e < length (heap s) \<Longrightarrow> freq (heap (main_remove s a) ! e) = freq (heap s ! e)"
  using counters_main_remove [of s a] nth_counters [of e "heap s"]
    nth_counters [of e "heap (main_remove s a)"]
  by (metis length_counters fst_conv)

lemma demoteToSmall_effect:
  assumes "e < length (heap s)"
  shows "freq (heap (demoteToSmall s e) ! e) = 1 \<and> inSmall (heap (demoteToSmall s e) ! e)
       \<and> tail (small (demoteToSmall s e)) = Some e
       \<and> len (small (demoteToSmall s e)) = len (small s) + 1
       \<and> len (main (demoteToSmall s e)) = len (main s) - 1
       \<and> totalEntries (demoteToSmall s e) = totalEntries s"
  using demote_effect [OF assms] by (simp add: demoteToSmall_def Let_def)

lemma secondChance_effect:
  assumes "e < length (heap s)"
  shows "freq (heap (secondChance s e) ! e) = freq (heap s ! e) - 1
       \<and> tail (main (secondChance s e)) = Some e
       \<and> len (main (secondChance s e)) = len (main s)
       \<and> totalEntries (secondChance s e) = totalEntries s"
proof -
  let ?s2 = "upd (main_remove s e) e (\<lambda>x. x\<lparr>freq := freq (heap s ! e) - 1\<rparr>)"
  have l2: "e < length (heap ?s2)" using assms by simp
  have h2: "freq (heap ?s2 ! e) = freq (heap s ! e) - 1"
    using assms by (simp add: upd_def hupd_def)
  have m2: "len (main ?s2) = len (main s) - 1" "totalEntries ?s2 = totalEntries s"
    using list_remove_fields(1) [OF assms, of "main s"]
    by (simp_all add: upd_def main_remove_def case_prod_beta)
  show ?thesis
    using pushBack_fields(1,2,7) [OF l2, of "main ?s2"] h2 m2
    by (simp add: secondChance_def Let_def main_pushBack_def case_prod_beta)
qed

text \<open>
  Claim C5. One turn of \<^verbatim>\<open>evictFromMain\<close> on a Main queue that is not empty, with head \<open>e\<close>.
  Frequency 0 and peak frequency at least 4: the head is demoted (unlinked from Main,
  frequency 1, flag \<open>inSmall\<close> set, new tail of Small) and the procedure returns. Frequency 0
  and peak frequency below 4: the head is unlinked and sent to death row, and the procedure
  returns. Frequency above 0: the head is unlinked, its frequency lowered by 1, it is pushed
  back as the tail of Main, and the loop goes on from that state.
\<close>

theorem evictFromMain_step:
  assumes "len (main s) > 0" and "head (main s) = Some e" and "e < length (heap s)"
  shows "(freq (heap s ! e) = 0 \<and> peakFreq (heap s ! e) \<ge> 4 \<longrightarrow>
            evictFromMain B s = Inr (demoteToSmall s e))
       \<and> (freq (heap s ! e) = 0 \<and> peakFreq (heap s ! e) < 4 \<longrightarrow>
            evictFromMain B s = Inr (sendToDeathRow B (main_remove s e) e))
       \<and> (freq (heap s ! e) \<noteq> 0 \<longrightarrow>
            evictFromMain B s = evictFromMain B (secondChance s e))
       \<and> freq (heap (demoteToSmall s e) ! e) = 1 \<and> inSmall (heap (demoteToSmall s e) ! e)
       \<and> tail (small (demoteToSmall s e)) = Some e
       \<and> len (small (demoteToSmall s e)) = len (small s) + 1
       \<and> len (main (demoteToSmall s e)) = len (main s) - 1
       \<and> freq (heap (secondChance s e) ! e) = freq (heap s ! e) - 1
       \<and> tail (main (secondChance s e)) = Some e
       \<and> len (main (secondChance s e)) = len (main s)
       \<and> (deathRowPos s < length (deathRow s) \<longrightarrow>
            onDeathRow (heap (sendToDeathRow B (main_remove s e) e) ! e)
            \<and> deathRow (sendToDeathRow B (main_remove s e) e) ! deathRowPos s = Some e
            \<and> len (main (sendToDeathRow B (main_remove s e) e)) = len (main s) - 1)"
proof -
  have eq: "(freq (heap s ! e) = 0 \<and> peakFreq (heap s ! e) \<ge> 4 \<longrightarrow>
            evictFromMain B s = Inr (demoteToSmall s e))
       \<and> (freq (heap s ! e) = 0 \<and> peakFreq (heap s ! e) < 4 \<longrightarrow>
            evictFromMain B s = Inr (sendToDeathRow B (main_remove s e) e))
       \<and> (freq (heap s ! e) \<noteq> 0 \<longrightarrow>
            evictFromMain B s = evictFromMain B (secondChance s e))"
    using assms peakFreq_main_remove [of e s e] evictFromMain.simps [of B s]
    by (auto simp: Let_def demoteToSmall_def secondChance_def)
  have l1: "e < length (heap (main_remove s e))" using assms(3) by simp
  have dr: "deathRowPos s < length (deathRow s) \<longrightarrow>
            onDeathRow (heap (sendToDeathRow B (main_remove s e) e) ! e)
            \<and> deathRow (sendToDeathRow B (main_remove s e) e) ! deathRowPos s = Some e
            \<and> len (main (sendToDeathRow B (main_remove s e) e)) = len (main s) - 1"
  proof
    assume p: "deathRowPos s < length (deathRow s)"
    have p1: "deathRowPos (main_remove s e) < length (deathRow (main_remove s e))"
      using p by (simp add: main_remove_def case_prod_beta)
    have "len (main (main_remove s e)) = len (main s) - 1"
      using list_remove_fields(1) [OF assms(3), of "main s"]
      by (simp add: main_remove_def case_prod_beta)
    then show "onDeathRow (heap (sendToDeathRow B (main_remove s e) e) ! e)
            \<and> deathRow (sendToDeathRow B (main_remove s e) e) ! deathRowPos s = Some e
            \<and> len (main (sendToDeathRow B (main_remove s e) e)) = len (main s) - 1"
      using sendToDeathRow_effect(1,2,6) [OF l1 p1, of B]
      by (simp add: main_remove_def case_prod_beta)
  qed
  show ?thesis
    using eq demoteToSmall_effect [OF assms(3)] secondChance_effect [OF assms(3)] dr
    by simp
qed

theorem evictFromMain_step_witness:
  "len (main resurrectedState) > 0 \<and> head (main resurrectedState) = Some 0
   \<and> 0 < length (heap resurrectedState) \<and> freq (heap resurrectedState ! 0) \<noteq> 0
   \<and> evictFromMain listBloom resurrectedState =
       evictFromMain listBloom (secondChance resurrectedState 0)
   \<and> len (main (secondChance resurrectedState 0)) = len (main resurrectedState)"
proof -
  have h1: "len (main resurrectedState) > 0" by code_simp
  have h2: "head (main resurrectedState) = Some 0" by code_simp
  have h3: "0 < length (heap resurrectedState)" by code_simp
  have h4: "freq (heap resurrectedState ! 0) \<noteq> 0" by code_simp
  show ?thesis
    using evictFromMain_step [OF h1 h2 h3, of listBloom] h1 h2 h3 h4 by blast
qed

text \<open>
  Claim C4, as the code has it. One turn of \<^verbatim>\<open>evictFromSmall\<close> on a Small queue that is
  not empty, with head \<open>e\<close>. Frequency below 2: the head is unlinked and sent to death row,
  and the procedure returns. Otherwise the head is promoted (unlinked from Small, frequency
  0, flag \<open>inSmall\<close> cleared, new tail of Main); when Main is then longer than 90% of the
  shard capacity, \<^verbatim>\<open>evictFromMain\<close> runs; in both cases the loop goes on with the next
  head of Small. It ends only when a head is sent to death row or Small is empty.
\<close>

theorem evictFromSmall_step:
  assumes "len (small s) > 0" and "head (small s) = Some e" and "e < length (heap s)"
  shows "(freq (heap s ! e) < 2 \<longrightarrow>
            evictFromSmall B s = Inr (sendToDeathRow B (small_remove s e) e))
       \<and> (\<not> freq (heap s ! e) < 2
            \<and> \<not> len (main (promoteToMain s e)) > go_div (capacity s * 9) 10 \<longrightarrow>
            evictFromSmall B s = evictFromSmall B (promoteToMain s e))
       \<and> (\<not> freq (heap s ! e) < 2
            \<and> len (main (promoteToMain s e)) > go_div (capacity s * 9) 10 \<longrightarrow>
            evictFromSmall B s =
              (case evictFromMain B (promoteToMain s e) of
                 Inl p \<Rightarrow> Inl p
               | Inr s5 \<Rightarrow> evictFromSmall B s5))"
  using assms evictFromSmall.simps [of B s]
  by (simp add: Let_def promoteToMain_def)

theorem evictFromSmall_step_witness:
  "len (small hotState) > 0 \<and> head (small hotState) = Some 0 \<and> 0 < length (heap hotState)
   \<and> \<not> freq (heap hotState ! 0) < 2
   \<and> len (main (promoteToMain hotState 0)) > go_div (capacity hotState * 9) 10
   \<and> evictFromSmall listBloom hotState =
        (case evictFromMain listBloom (promoteToMain hotState 0) of
           Inl p \<Rightarrow> Inl p
         | Inr s5 \<Rightarrow> evictFromSmall listBloom s5)"
proof -
  have h1: "len (small hotState) > 0" by code_simp
  have h2: "head (small hotState) = Some 0" by code_simp
  have h3: "0 < length (heap hotState)" by code_simp
  have h4: "\<not> freq (heap hotState ! 0) < 2" by code_simp
  have h5: "len (main (promoteToMain hotState 0)) > go_div (capacity hotState * 9) 10"
    by code_simp
  show ?thesis
    using evictFromSmall_step [OF h1 h2 h3, of listBloom] h1 h2 h3 h4 h5 by blast
qed

text \<open>
  Claim C4, as stated: once \<^verbatim>\<open>evictFromMain\<close> has been triggered, \<^verbatim>\<open>evictFromSmall\<close>
  stops, so that its result is the result of that \<^verbatim>\<open>evictFromMain\<close>. On the shard whose
  only entry is hot, \<^verbatim>\<open>evictFromMain\<close> demotes the promoted entry back to Small and leaves
  one live entry; \<^verbatim>\<open>evictFromSmall\<close> goes on, sends it to death row and leaves none.
\<close>

theorem evictFromSmall_does_not_stop:
  "\<not> freq (heap hotState ! 0) < 2
   \<and> len (main (promoteToMain hotState 0)) > go_div (capacity hotState * 9) 10
   \<and> evictFromSmall listBloom hotState \<noteq> evictFromMain listBloom (promoteToMain hotState 0)"
proof -
  have h4: "\<not> freq (heap hotState ! 0) < 2" by code_simp
  have h5: "len (main (promoteToMain hotState 0)) > go_div (capacity hotState * 9) 10"
    by code_simp
  have "map_sum id totalEntries (evictFromSmall listBloom hotState) = Inr 0" by code_simp
  moreover have
    "map_sum id totalEntries (evictFromMain listBloom (promoteToMain hotState 0)) = Inr 1"
    by code_simp
  ultimately have
    "evictFromSmall listBloom hotState \<noteq> evictFromMain listBloom (promoteToMain hotState 0)"
    by auto
  with h4 h5 show ?thesis by simp
qed

section \<open>Death row: expiry, deletion and the live count\<close>

lemma bitsLen_1: "bitsLen (Suc 0) = Suc 0"
proof -
  have "bitsLen 0 = 0" by (subst bitsLen.simps) simp
  then show ?thesis by (subst bitsLen.simps) simp
qed

lemma numShards_size1:
  assumes "1 \<le> procs"
  shows "numShards procs 1 = 1 \<and> shardCapacity procs 1 = 1"
proof -
  have "min (min (max (procs * 16) (go_div 1 256)) (max 1 (go_div 1 1024))) 2048 = 1"
    using assms by (simp add: go_div_def)
  then have n: "numShards procs 1 = 1"
    by (simp add: numShards_def cacheSize_def Let_def bitsLen_1)
  then show ?thesis
    by (simp add: shardCapacity_def cacheSize_def go_div_def)
qed

lemma get_expired_miss:
  assumes "map_of (entries s) k = Some e" and "\<not> onDeathRow (heap s ! e)"
    and "expiryNano (heap s ! e) \<noteq> 0" and "now > expiryNano (heap s ! e)"
  shows "shard_get s k now = ((None, False), s)"
  using assms by (simp add: shard_get_def)

text \<open>
  Claim C1 at a failing input. Key \<open>a\<close> is stored with expiry 5 and then evicted to death
  row by the set of key \<open>b\<close>. A read of \<open>a\<close> at time 10, after the expiry, finds the entry on
  death row and resurrects it without looking at the expiry: it returns the value 1 with
  found = true, where the claim says not found.
\<close>

theorem get_on_death_row_ignores_expiry:
  "map_of (entries deathRowState) ''a'' = Some 0
   \<and> onDeathRow (heap deathRowState ! 0)
   \<and> expiryNano (heap deathRowState ! 0) = 5
   \<and> fst (shard_get deathRowState ''a'' 10) = (Some 1, True)"
  by code_simp

text \<open>
  Claim C2 at a failing input. In the same shard key \<open>a\<close> is on death row (slot 0) and key
  \<open>b\<close> is the only entry of Small. The delete of \<open>a\<close> takes the branch of its \<open>inSmall\<close>
  flag and unlinks the entry from Small, where it is not linked: with both links of the
  entry nil, head and tail of Small become nil. Afterwards key \<open>b\<close> is in the map but its
  entry is in neither queue nor on death row, and the entry of the deleted key still
  occupies its death-row slot.
\<close>

theorem delete_on_death_row_breaks_membership:
  "map_of (entries deathRowState) ''a'' = Some 0
   \<and> onDeathRow (heap deathRowState ! 0)
   \<and> map_of (entries deathRowState) ''b'' = Some 1
   \<and> queue (heap deathRowState) (small deathRowState) = [1]
   \<and> map_of (entries (shard_delete deathRowState ''a'')) ''b'' = Some 1
   \<and> queue (heap (shard_delete deathRowState ''a'')) (small (shard_delete deathRowState ''a'')) = []
   \<and> queue (heap (shard_delete deathRowState ''a'')) (main (shard_delete deathRowState ''a'')) = []
   \<and> Some 1 \<notin> set (deathRow (shard_delete deathRowState ''a''))
   \<and> map_of (entries (shard_delete deathRowState ''a'')) ''a'' = None
   \<and> deathRow (shard_delete deathRowState ''a'') ! 0 = Some 0
   \<and> len (small (shard_delete deathRowState ''a'')) = 0
   \<and> totalEntries (shard_delete deathRowState ''a'') = 0"
  by code_simp

text \<open>
  Claim C3 at a failing input: a cache of capacity 1. After the set of \<open>a\<close>, the set of
  \<open>b\<close> (which ends the warmup and sends \<open>a\<close> to death row) and a read of \<open>a\<close> (which
  resurrects it into Main without evicting anything), the cache holds two live entries,
  one in Small and one in Main, and its counter is 2.
\<close>

theorem resurrection_exceeds_capacity:
  "run listBloom [Set ''a'' 1 5 0, Set ''b'' 2 0 0, Get ''a'' 10] cache1 = Inr resurrectedState
   \<and> warmupComplete resurrectedState
   \<and> parentCapacity resurrectedState = 1 \<and> capacity resurrectedState = 1
   \<and> queue (heap resurrectedState) (small resurrectedState) = [1]
   \<and> queue (heap resurrectedState) (main resurrectedState) = [0]
   \<and> deathRow resurrectedState = replicate 8 None
   \<and> totalEntries resurrectedState = 2"
proof -
  have "\<not> isl (run listBloom [Set ''a'' 1 5 0, Set ''b'' 2 0 0, Get ''a'' 10] cache1)"
    by code_simp
  then have "run listBloom [Set ''a'' 1 5 0, Set ''b'' 2 0 0, Get ''a'' 10] cache1
             = Inr resurrectedState"
    by (cases "run listBloom [Set ''a'' 1 5 0, Set ''b'' 2 0 0, Get ''a'' 10] cache1")
       (simp_all add: resurrectedState_def runFrom_def)
  moreover have "warmupComplete resurrectedState
   \<and> parentCapacity resurrectedState = 1 \<and> capacity resurrectedState = 1
   \<and> queue (heap resurrectedState) (small resurrectedState) = [1]
   \<and> queue (heap resurrectedState) (main resurrectedState) = [0]
   \<and> deathRow resurrectedState = replicate 8 None
   \<and> totalEntries resurrectedState = 2"
    by code_simp
  ultimately show ?thesis by simp
qed

section \<open>The frequency counters stay within their bounds\<close>

lemma freqInv_cong:
  assumes "freqInv s" and "counters (heap s') = counters (heap s)"
    and "ghostFreqRng s' = ghostFreqRng s" and "deathRow s' = deathRow s"
    and "deathRowPos s' = deathRowPos s" and "entries s' = entries s"
  shows "freqInv s'"
proof -
  have "length (heap s') = length (heap s)"
    using assms(2) by (metis length_counters)
  with assms show ?thesis by (simp add: freqInv_def)
qed

lemma freqInv_nth: "freqInv s \<Longrightarrow> a < length (heap s) \<Longrightarrow> okc (freq (heap s ! a), peakFreq (heap s ! a))"
  unfolding freqInv_def
  by (metis length_counters nth_counters nth_mem)

lemma counters_upd:
  "counters (heap (upd s a g)) =
     (counters (heap s))[a := (freq (g (heap s ! a)), peakFreq (g (heap s ! a)))]"
  by (cases "a < length (heap s)")
     (simp_all add: upd_def hupd_def counters_def map_update list_update_beyond)

lemma upd_frame [simp]:
  "ghostFreqRng (upd s a g) = ghostFreqRng s" "deathRow (upd s a g) = deathRow s"
  "entries (upd s a g) = entries s" "small (upd s a g) = small s" "main (upd s a g) = main s"
  "totalEntries (upd s a g) = totalEntries s" "deathRowPos (upd s a g) = deathRowPos s"
  "capacity (upd s a g) = capacity s" "ghostActive (upd s a g) = ghostActive s"
  "ghostAging (upd s a g) = ghostAging s" "ghostCap (upd s a g) = ghostCap s"
  "smallThresh (upd s a g) = smallThresh s" "warmupComplete (upd s a g) = warmupComplete s"
  "parentCapacity (upd s a g) = parentCapacity s" "hasher (upd s a g) = hasher s"
  by (simp_all add: upd_def)

lemma freqInv_upd:
  assumes "freqInv s" and "okc (freq (g (heap s ! a)), peakFreq (g (heap s ! a)))"
  shows "freqInv (upd s a g)"
proof -
  have "set ((counters (heap s))[a := (freq (g (heap s ! a)), peakFreq (g (heap s ! a)))])
        \<subseteq> insert (freq (g (heap s ! a)), peakFreq (g (heap s ! a))) (set (counters (heap s)))"
    by (rule set_update_subset_insert)
  with assms show ?thesis
    by (auto simp: freqInv_def counters_upd)
qed

lemma queue_frame [simp]:
  "ghostFreqRng (main_remove s e) = ghostFreqRng s" "deathRow (main_remove s e) = deathRow s"
  "entries (main_remove s e) = entries s"
  "ghostFreqRng (small_remove s e) = ghostFreqRng s" "deathRow (small_remove s e) = deathRow s"
  "entries (small_remove s e) = entries s"
  "ghostFreqRng (main_pushBack s e) = ghostFreqRng s" "deathRow (main_pushBack s e) = deathRow s"
  "entries (main_pushBack s e) = entries s"
  "ghostFreqRng (small_pushBack s e) = ghostFreqRng s" "deathRow (small_pushBack s e) = deathRow s"
  "entries (small_pushBack s e) = entries s"
  "deathRowPos (main_remove s e) = deathRowPos s" "deathRowPos (small_remove s e) = deathRowPos s"
  "deathRowPos (main_pushBack s e) = deathRowPos s" "deathRowPos (small_pushBack s e) = deathRowPos s"
  by (simp_all add: main_remove_def small_remove_def main_pushBack_def small_pushBack_def
      case_prod_beta)

lemma freqInv_cong_iff:
  assumes "counters (heap s') = counters (heap s)"
    and "ghostFreqRng s' = ghostFreqRng s" and "deathRow s' = deathRow s"
    and "deathRowPos s' = deathRowPos s" and "entries s' = entries s"
  shows "freqInv s' = freqInv s"
  using assms freqInv_cong [of s s'] freqInv_cong [of s' s] by auto

lemma freqInv_queue [simp]:
  "freqInv (main_remove s e) = freqInv s" "freqInv (small_remove s e) = freqInv s"
  "freqInv (main_pushBack s e) = freqInv s" "freqInv (small_pushBack s e) = freqInv s"
  by (rule freqInv_cong_iff; simp)+

lemma word_bump_ok:
  fixes f p :: "32 word"
  assumes "f \<le> 7" "f \<le> p" "p \<le> 7" "f < 7"
  shows "f + 1 \<le> 7" and "p < f + 1 \<Longrightarrow> f + 1 \<le> 7" and "\<not> p < f + 1 \<Longrightarrow> f + 1 \<le> p"
  using assms by unat_arith+

lemma okc_bumpFreq: "okc (freq x, peakFreq x) \<Longrightarrow> okc (freq (bumpFreq x), peakFreq (bumpFreq x))"
  using word_bump_ok [of "freq x" "peakFreq x"]
  by (auto simp: okc_def bumpFreq_def Let_def maxFreq_def)

lemma word_pred_le: "(f :: 32 word) \<noteq> 0 \<Longrightarrow> f - 1 \<le> f"
  by unat_arith

lemma ring_add_ok:
  "\<forall>f \<in> set (freqs r). f \<le> maxFreq \<Longrightarrow> pf \<le> maxFreq
   \<Longrightarrow> \<forall>f \<in> set (freqs (ring_add r h pf)). f \<le> maxFreq"
  using set_update_subset_insert [of "freqs r" "unat (pos r)" pf]
  by (auto simp: ring_add_def)

lemma addToGhost_frame [simp]:
  "deathRow (addToGhost B s h pf) = deathRow s" "entries (addToGhost B s h pf) = entries s"
  "deathRowPos (addToGhost B s h pf) = deathRowPos s"
  "totalEntries (addToGhost B s h pf) = totalEntries s"
  "small (addToGhost B s h pf) = small s" "main (addToGhost B s h pf) = main s"
  by (simp_all add: addToGhost_def Let_def)

lemma addToGhost_ring:
  "\<forall>f \<in> set (freqs (ghostFreqRng s)). f \<le> maxFreq \<Longrightarrow> pf \<le> maxFreq
   \<Longrightarrow> \<forall>f \<in> set (freqs (ghostFreqRng (addToGhost B s h pf))). f \<le> maxFreq"
  using ring_add_ok [of "ghostFreqRng s" pf h]
  by (simp add: addToGhost_def Let_def)

lemma set_alist_delete: "set (AList.delete k al) \<subseteq> set al"
  by (auto simp: AList.delete_eq)

lemma snd_set_alist_update: "snd ` set (AList.update k v al) \<subseteq> insert v (snd ` set al)"
  by (induction al) auto

lemma sendToDeathRow_fields:
  "deathRow (sendToDeathRow B s e) = (deathRow s)[deathRowPos s := Some e]"
  "deathRowPos (sendToDeathRow B s e) = (deathRowPos s + 1) mod length (deathRow s)"
  "set (entries (sendToDeathRow B s e)) \<subseteq> set (entries s)"
  by (auto simp: sendToDeathRow_def Let_def split: option.splits
      dest: set_alist_delete [THEN subsetD])

lemma freqInv_sendToDeathRow:
  assumes "freqInv s" and "e < length (heap s)"
  shows "freqInv (sendToDeathRow B s e)"
proof -
  have c: "\<forall>c \<in> set (counters (heap (sendToDeathRow B s e))). okc c"
    using assms(1) by (simp add: freqInv_def)
  have d: "\<forall>a. Some a \<in> set (deathRow (sendToDeathRow B s e)) \<longrightarrow> a < length (heap s)"
    using assms set_update_subset_insert [of "deathRow s" "deathRowPos s" "Some e"]
    by (auto simp: sendToDeathRow_fields freqInv_def)
  have p: "deathRowPos (sendToDeathRow B s e) < length (deathRow (sendToDeathRow B s e))"
    using assms(1) by (auto simp: sendToDeathRow_fields freqInv_def intro: mod_less_divisor)
  have en: "\<forall>a \<in> snd ` set (entries (sendToDeathRow B s e)). a < length (heap s)"
    using assms(1) sendToDeathRow_fields(3) [of B s e]
    by (auto simp: freqInv_def)
  have r: "\<forall>f \<in> set (freqs (ghostFreqRng (sendToDeathRow B s e))). f \<le> maxFreq"
  proof (cases "deathRow s ! deathRowPos s")
    case None
    with assms(1) show ?thesis by (simp add: sendToDeathRow_def Let_def freqInv_def)
  next
    case (Some old)
    then have "Some old \<in> set (deathRow s)"
      using assms(1) by (metis freqInv_def nth_mem)
    then have v: "old < length (heap s)"
      using assms(1) by (simp add: freqInv_def)
    then have "peakFreq (heap s ! old) \<le> maxFreq"
      using freqInv_nth [OF assms(1) v] by (simp add: okc_def)
    then have "\<forall>f \<in> set (freqs (ghostFreqRng (addToGhost B
                   (s\<lparr>entries := AList.delete (key (heap s ! old)) (entries s)\<rparr>)
                   (hash (heap s ! old)) (peakFreq (heap s ! old))))). f \<le> maxFreq"
      using assms(1) by (intro addToGhost_ring) (simp_all add: freqInv_def)
    with Some show ?thesis
      by (simp add: sendToDeathRow_def Let_def)
  qed
  show ?thesis
    using c d p en r by (simp add: freqInv_def)
qed

lemma evictFromMain_unfold:
  assumes "len (main s) > 0" and "head (main s) = Some e" and "e < length (heap s)"
  shows "evictFromMain B s =
     (if freq (heap s ! e) = 0 then
        (if 4 \<le> peakFreq (heap s ! e) then Inr (demoteToSmall s e)
         else Inr (sendToDeathRow B (main_remove s e) e))
      else evictFromMain B (secondChance s e))"
  using assms peakFreq_main_remove [of e s e] evictFromMain.simps [of B s]
  by (simp add: Let_def demoteToSmall_def secondChance_def)

lemma evictFromSmall_unfold:
  assumes "len (small s) > 0" and "head (small s) = Some e" and "e < length (heap s)"
  shows "evictFromSmall B s =
     (if freq (heap s ! e) < 2 then Inr (sendToDeathRow B (small_remove s e) e)
      else if len (main (promoteToMain s e)) > go_div (capacity s * 9) 10 then
        (case evictFromMain B (promoteToMain s e) of
           Inl p \<Rightarrow> Inl p
         | Inr s5 \<Rightarrow> evictFromSmall B s5)
      else evictFromSmall B (promoteToMain s e))"
  using assms evictFromSmall.simps [of B s]
  by (simp add: Let_def promoteToMain_def)

lemma evictFromMain_head:
  assumes "evictFromMain B s = Inr s'" and "len (main s) > 0"
  obtains e where "head (main s) = Some e" and "e < length (heap s)"
  using assms evictFromMain.simps [of B s]
  by (auto split: option.splits if_splits)

lemma evictFromSmall_head:
  assumes "evictFromSmall B s = Inr s'" and "len (small s) > 0"
  obtains e where "head (small s) = Some e" and "e < length (heap s)"
  using assms evictFromSmall.simps [of B s]
  by (auto simp: Let_def split: option.splits if_splits)

lemma freqInv_demoteToSmall:
  assumes "freqInv s" and "e < length (heap s)" and "4 \<le> peakFreq (heap s ! e)"
  shows "freqInv (demoteToSmall s e)"
proof -
  let ?s1 = "main_remove s e"
  let ?s2 = "upd ?s1 e (\<lambda>x. x\<lparr>freq := 1\<rparr>)"
  have s1: "freqInv ?s1" using assms(1) by simp
  have "okc (freq (heap ?s1 ! e), peakFreq (heap ?s1 ! e))"
    using freqInv_nth [OF s1, of e] assms(2) by simp
  then have "okc (1, peakFreq (heap ?s1 ! e))"
    using assms(2,3) peakFreq_main_remove [of e s e]
    by (simp add: okc_def maxFreq_def) unat_arith
  then have s2: "freqInv ?s2"
    by (intro freqInv_upd [OF s1]) simp
  have "okc (freq (heap ?s2 ! e), peakFreq (heap ?s2 ! e))"
    using freqInv_nth [OF s2, of e] assms(2) by simp
  then have "freqInv (upd ?s2 e (\<lambda>x. x\<lparr>inSmall := True\<rparr>))"
    by (intro freqInv_upd [OF s2]) simp
  then show ?thesis by (simp add: demoteToSmall_def)
qed

lemma freqInv_secondChance:
  assumes "freqInv s" and "e < length (heap s)" and "freq (heap s ! e) \<noteq> 0"
  shows "freqInv (secondChance s e)"
proof -
  let ?s1 = "main_remove s e"
  have s1: "freqInv ?s1" using assms(1) by simp
  have "okc (freq (heap ?s1 ! e), peakFreq (heap ?s1 ! e))"
    using freqInv_nth [OF s1, of e] assms(2) by simp
  then have "okc (freq (heap s ! e) - 1, peakFreq (heap ?s1 ! e))"
    using freq_main_remove [OF assms(2), of e] word_pred_le [OF assms(3)]
    by (auto simp: okc_def)
  then have "freqInv (upd ?s1 e (\<lambda>x. x\<lparr>freq := freq (heap s ! e) - 1\<rparr>))"
    by (intro freqInv_upd [OF s1]) simp
  then show ?thesis by (simp add: secondChance_def)
qed

lemma freqInv_promoteToMain:
  assumes "freqInv s" and "e < length (heap s)"
  shows "freqInv (promoteToMain s e)"
proof -
  let ?s2 = "upd (small_remove s e) e (\<lambda>x. x\<lparr>freq := 0\<rparr>)"
  have s1: "freqInv (small_remove s e)" using assms(1) by simp
  have "okc (0, peakFreq (heap (small_remove s e) ! e))"
    using freqInv_nth [OF s1, of e] assms(2) by (simp add: okc_def)
  then have s2: "freqInv ?s2"
    by (intro freqInv_upd [OF s1]) simp
  have "okc (freq (heap ?s2 ! e), peakFreq (heap ?s2 ! e))"
    using freqInv_nth [OF s2, of e] assms(2) by simp
  then have "freqInv (upd ?s2 e (\<lambda>x. x\<lparr>inSmall := False\<rparr>))"
    by (intro freqInv_upd [OF s2]) simp
  then show ?thesis by (simp add: promoteToMain_def)
qed

lemma length_heap_steps [simp]:
  "length (heap (promoteToMain s e)) = length (heap s)"
  "length (heap (demoteToSmall s e)) = length (heap s)"
  "length (heap (secondChance s e)) = length (heap s)"
  by (simp_all add: promoteToMain_def demoteToSmall_def secondChance_def)

lemma secondChance_unfold:
  "secondChance s e =
     main_pushBack (upd (main_remove s e) e (\<lambda>x. x\<lparr>freq := freq (heap s ! e) - 1\<rparr>)) e"
  by (simp add: secondChance_def Let_def)

lemma promoteToMain_unfold:
  "promoteToMain s e =
     main_pushBack (upd (upd (small_remove s e) e (\<lambda>x. x\<lparr>freq := 0\<rparr>)) e
       (\<lambda>x. x\<lparr>inSmall := False\<rparr>)) e"
  by (simp add: promoteToMain_def Let_def)

lemma evictFromMain_inv:
  "freqInv s \<Longrightarrow> evictFromMain B s = Inr s'
   \<Longrightarrow> freqInv s' \<and> length (heap s') = length (heap s)"
proof (induction B s arbitrary: s' rule: evictFromMain.induct)
  case (1 B s)
  show ?case
  proof (cases "len (main s) > 0")
    case False
    with "1.prems" show ?thesis by (simp add: evictFromMain.simps)
  next
    case True
    obtain e where e: "head (main s) = Some e" "e < length (heap s)"
      using "1.prems"(2) True by (rule evictFromMain_head)
    note unf = evictFromMain_unfold [OF True e, of B]
    have nle: "\<not> length (heap s) \<le> e" using e(2) by simp
    show ?thesis
    proof (cases "freq (heap s ! e) = 0")
      case zero: True
      show ?thesis
      proof (cases "4 \<le> peakFreq (heap s ! e)")
        case True
        then have "s' = demoteToSmall s e"
          using unf zero "1.prems"(2) by simp
        then show ?thesis
          using freqInv_demoteToSmall [OF "1.prems"(1) e(2) True] by simp
      next
        case False
        then have "s' = sendToDeathRow B (main_remove s e) e"
          using unf zero "1.prems"(2) by simp
        then show ?thesis
          using freqInv_sendToDeathRow [of "main_remove s e" e B] "1.prems"(1) e(2) by simp
      qed
    next
      case False
      have rec: "evictFromMain B (secondChance s e) = Inr s'"
        using unf False "1.prems"(2) by simp
      have inv: "freqInv (secondChance s e)"
        using "1.prems"(1) e(2) False by (rule freqInv_secondChance)
      have "freqInv s' \<and> length (heap s') = length (heap (secondChance s e))"
        using "1.IH" [OF True e(1) nle refl False refl refl inv [unfolded secondChance_unfold]
            rec [unfolded secondChance_unfold]]
        by (simp add: secondChance_unfold)
      then show ?thesis by simp
    qed
  qed
qed

lemma evictFromSmall_inv:
  "freqInv s \<Longrightarrow> evictFromSmall B s = Inr s'
   \<Longrightarrow> freqInv s' \<and> length (heap s') = length (heap s)"
proof (induction B s arbitrary: s' rule: evictFromSmall.induct)
  case (1 B s)
  show ?case
  proof (cases "len (small s) > 0")
    case False
    with "1.prems" show ?thesis by (simp add: evictFromSmall.simps)
  next
    case True
    obtain e where e: "head (small s) = Some e" "e < length (heap s)"
      using "1.prems"(2) True by (rule evictFromSmall_head)
    note unf = evictFromSmall_unfold [OF True e, of B]
    have nle: "\<not> length (heap s) \<le> e" using e(2) by simp
    have pinv: "freqInv (promoteToMain s e)"
      using "1.prems"(1) e(2) by (rule freqInv_promoteToMain)
    show ?thesis
    proof (cases "freq (heap s ! e) < 2")
      case True
      then have "s' = sendToDeathRow B (small_remove s e) e"
        using unf "1.prems"(2) by simp
      then show ?thesis
        using freqInv_sendToDeathRow [of "small_remove s e" e B] "1.prems"(1) e(2) by simp
    next
      case False
      show ?thesis
      proof (cases "len (main (promoteToMain s e)) > go_div (capacity s * 9) 10")
        case over: True
        then obtain s5 where s5: "evictFromMain B (promoteToMain s e) = Inr s5"
          and rec: "evictFromSmall B s5 = Inr s'"
          using unf False "1.prems"(2) by (auto split: sum.splits)
        have i5: "freqInv s5 \<and> length (heap s5) = length (heap (promoteToMain s e))"
          using pinv s5 by (rule evictFromMain_inv)
        have "freqInv s' \<and> length (heap s') = length (heap s5)"
          using "1.IH"(1) [OF refl True e(1) nle refl False refl refl refl refl
              over [unfolded promoteToMain_unfold] s5 [unfolded promoteToMain_unfold] _ rec] i5
          by simp
        with i5 show ?thesis by simp
      next
        case under: False
        then have rec: "evictFromSmall B (promoteToMain s e) = Inr s'"
          using unf False "1.prems"(2) by simp
        have "freqInv s' \<and> length (heap s') = length (heap (promoteToMain s e))"
          using "1.IH"(2) [OF refl True e(1) nle refl False refl refl refl refl
              under [unfolded promoteToMain_unfold] pinv [unfolded promoteToMain_unfold]
              rec [unfolded promoteToMain_unfold]]
          by (simp add: promoteToMain_unfold)
        then show ?thesis by simp
      qed
    qed
  qed
qed

lemma freqInv_upd_same:
  assumes "freqInv s" and "\<And>x. freq (g x) = freq x \<and> peakFreq (g x) = peakFreq x"
  shows "freqInv (upd s a g)"
  using assms(1) counters_upd_same [of g s a, OF assms(2)]
  by (rule freqInv_cong [of s]) simp_all

lemma freqInv_fields [simp]:
  "freqInv (s\<lparr>warmupComplete := b\<rparr>) = freqInv s"
  "freqInv (s\<lparr>totalEntries := n\<rparr>) = freqInv s"
  by (simp_all add: freqInv_def)

lemma counters_append: "counters (h @ [x]) = counters h @ [(freq x, peakFreq x)]"
  by (simp add: counters_def)

lemma freqInv_alloc:
  assumes "freqInv s"
  shows "freqInv (s\<lparr>heap := heap s @ [newEntry k v ex]\<rparr>)"
proof -
  have "okc (freq (newEntry k v ex), peakFreq (newEntry k v ex))"
    by (simp add: newEntry_def okc_def)
  then have "\<forall>c \<in> set (counters (heap s @ [newEntry k v ex])). okc c"
    using assms by (simp add: counters_append freqInv_def)
  moreover have "\<forall>a. Some a \<in> set (deathRow s) \<longrightarrow> a < length (heap s @ [newEntry k v ex])"
    using assms by (simp add: freqInv_def less_Suc_eq)
  moreover have "\<forall>a \<in> snd ` set (entries s). a < length (heap s @ [newEntry k v ex])"
    using assms by (simp add: freqInv_def less_Suc_eq)
  ultimately show ?thesis
    using assms by (simp add: freqInv_def)
qed

lemma freqInv_allocEntry: "freqInv s \<Longrightarrow> freqInv (allocEntry s k v ex h)"
  unfolding allocEntry_def Let_def
  by (rule freqInv_upd_same, rule freqInv_alloc) simp_all

lemma length_heap_allocEntry [simp]:
  "length (heap (allocEntry s k v ex h)) = Suc (length (heap s))"
  by (simp add: allocEntry_def Let_def)

lemma in_alist_update:
  "(a, b) \<in> set (AList.update k e al) \<Longrightarrow> b = e \<or> (\<exists>a'. (a', b) \<in> set al)"
  by (induction al) (auto split: if_splits)

lemma freqInv_storeNew:
  assumes "freqInv s" and "e < length (heap s)"
  shows "freqInv (storeNew s k e)"
proof -
  have "\<forall>a \<in> snd ` set (AList.update k e (entries s)). a < length (heap s)"
  proof
    fix b assume "b \<in> snd ` set (AList.update k e (entries s))"
    then obtain a where "(a, b) \<in> set (AList.update k e (entries s))" by auto
    then have "b = e \<or> (\<exists>a'. (a', b) \<in> set (entries s))" by (rule in_alist_update)
    then show "b < length (heap s)"
      using assms by (force simp: freqInv_def)
  qed
  then show ?thesis using assms(1) by (simp add: freqInv_def storeNew_def Let_def)
qed

lemma ring_lookup_ok:
  assumes "\<forall>f \<in> set (freqs r). f \<le> maxFreq" and "ring_lookup r h = Some p"
  shows "p \<le> maxFreq"
proof -
  have "(h, p) \<in> set (zip (hashes r) (freqs r))"
    using assms(2) by (simp add: ring_lookup_def map_of_SomeD)
  then have "p \<in> set (freqs r)" by (rule set_zip_rightD)
  with assms(1) show ?thesis by simp
qed

lemma freqInv_restore:
  assumes "freqInv s" and "ring_lookup (ghostFreqRng s) h = Some p"
  shows "freqInv (upd (upd s e (\<lambda>x. x\<lparr>freq := p\<rparr>)) e (\<lambda>x. x\<lparr>peakFreq := p\<rparr>))"
proof -
  have p: "p \<le> maxFreq"
    using assms ring_lookup_ok [of "ghostFreqRng s" h p] by (simp add: freqInv_def)
  have "freqInv (upd s e (\<lambda>x. x\<lparr>freq := p, peakFreq := p\<rparr>))"
    using p by (intro freqInv_upd [OF assms(1)]) (simp add: okc_def)
  then show ?thesis by (simp add: upd_upd)
qed

lemma freqInv_admitGhost: "freqInv s \<Longrightarrow> freqInv (admitGhost B s e h)"
proof -
  assume inv: "freqInv s"
  let ?s3 = "upd s e (\<lambda>x. x\<lparr>inSmall := \<not> (bfContains B (ghostActive s) h
                                             \<or> bfContains B (ghostAging s) h)\<rparr>)"
  have s3: "freqInv ?s3"
    using inv by (rule freqInv_upd_same) simp
  show ?thesis
  proof (cases "ring_lookup (ghostFreqRng ?s3) h")
    case None
    with s3 show ?thesis by (simp add: admitGhost_def Let_def)
  next
    case (Some p)
    with s3 freqInv_restore [OF s3 Some, of e] show ?thesis
      by (simp add: admitGhost_def Let_def)
  qed
qed

lemma length_heap_admitGhost [simp]: "length (heap (admitGhost B s e h)) = length (heap s)"
  by (simp add: admitGhost_def Let_def split: option.splits)

lemma evictForNew_inv:
  assumes "freqInv s" and "evictForNew B s = Inr s'"
  shows "freqInv s' \<and> length (heap s') = length (heap s)"
proof (cases "len (main s) > 0 \<and> len (small s) \<le> smallThresh s")
  case True
  with assms(2) have "evictFromMain B s = Inr s'" by (simp add: evictForNew_def)
  with assms(1) show ?thesis by (rule evictFromMain_inv)
next
  case False
  show ?thesis
  proof (cases "len (small s) > 0")
    case True
    with False assms(2) have "evictFromSmall B s = Inr s'"
      by (auto simp: evictForNew_def split: if_splits)
    with assms(1) show ?thesis by (rule evictFromSmall_inv)
  next
    case nz: False
    with False assms show ?thesis by (auto simp: evictForNew_def split: if_splits)
  qed
qed


lemma freqInv_entry:
  assumes "freqInv s" and "map_of (entries s) k = Some e"
  shows "e < length (heap s)"
proof -
  have "(k, e) \<in> set (entries s)" using assms(2) by (rule map_of_SomeD)
  then have "e \<in> snd ` set (entries s)" by force
  with assms(1) show ?thesis unfolding freqInv_def by blast
qed

lemma freqInv_setWithHash:
  assumes "freqInv s" and "setWithHash B s k v ex hsh = Inr s'"
  shows "freqInv s'"
proof (cases "map_of (entries s) k")
  case (Some e)
  have v: "e < length (heap s)" using assms(1) Some by (rule freqInv_entry)
  have s': "s' = upd s e (\<lambda>x. bumpFreq (x\<lparr>evalue := v, expiryNano := ex\<rparr>))"
    using assms(2) Some by (simp add: setWithHash_def Let_def upd_upd)
  have "okc (freq (heap s ! e), peakFreq (heap s ! e))"
    using assms(1) v by (rule freqInv_nth)
  then have "okc (freq (bumpFreq ((heap s ! e)\<lparr>evalue := v, expiryNano := ex\<rparr>)),
                  peakFreq (bumpFreq ((heap s ! e)\<lparr>evalue := v, expiryNano := ex\<rparr>)))"
    by (intro okc_bumpFreq) simp
  then show ?thesis
    unfolding s' by (intro freqInv_upd [OF assms(1)]) simp
next
  case None
  define e where "e = length (heap s)"
  define h where "h = (if hsh = 0 then hasher s k else hsh)"
  define s1 where "s1 = allocEntry s k v ex h"
  have i1: "freqInv s1" and l1: "e < length (heap s1)"
    using assms(1) by (simp_all add: s1_def e_def freqInv_allocEntry)
  show ?thesis
  proof (cases "\<not> warmupComplete s1 \<and> \<not> totalEntries s1 \<ge> parentCapacity s1")
    case True
    let ?s3 = "small_pushBack (upd s1 e (\<lambda>x. x\<lparr>inSmall := True\<rparr>)) e"
    have "s' = storeNew ?s3 k e"
      using assms(2) None True
      by (simp add: setWithHash_def Let_def e_def [symmetric] h_def [symmetric] s1_def [symmetric])
    moreover have "freqInv ?s3" "e < length (heap ?s3)"
      using i1 l1 by (simp_all add: freqInv_upd_same)
    ultimately show ?thesis by (simp add: freqInv_storeNew)
  next
    case False
    define s2 where "s2 = s1\<lparr>warmupComplete := True\<rparr>"
    have i2: "freqInv s2" and l2: "e < length (heap s2)"
      using i1 l1 by (simp_all add: s2_def)
    define r where "r = (if totalEntries s1 \<ge> parentCapacity s1
                          then evictForNew B (admitGhost B s2 e h)
                          else Inr (upd s2 e (\<lambda>x. x\<lparr>inSmall := True\<rparr>)))"
    have "\<exists>s5. r = Inr s5
            \<and> s' = storeNew (if inSmall (heap s5 ! e) then small_pushBack s5 e
                             else main_pushBack s5 e) k e"
      using assms(2) None False
      by (auto simp: setWithHash_def Let_def e_def [symmetric] h_def [symmetric]
          s1_def [symmetric] s2_def [symmetric] r_def split: sum.splits if_splits)
    then obtain s5 where r5: "r = Inr s5"
      and s': "s' = storeNew (if inSmall (heap s5 ! e) then small_pushBack s5 e
                              else main_pushBack s5 e) k e"
      by blast
    have "freqInv s5 \<and> length (heap s5) = length (heap s2)"
    proof (cases "totalEntries s1 \<ge> parentCapacity s1")
      case True
      then have "evictForNew B (admitGhost B s2 e h) = Inr s5"
        using r5 by (simp add: r_def)
      then show ?thesis
        using evictForNew_inv [OF freqInv_admitGhost [OF i2, of B e h]] by simp
    next
      case False
      then have "s5 = upd s2 e (\<lambda>x. x\<lparr>inSmall := True\<rparr>)"
        using r5 by (simp add: r_def)
      then show ?thesis using i2 by (simp add: freqInv_upd_same)
    qed
    then have "freqInv (if inSmall (heap s5 ! e) then small_pushBack s5 e else main_pushBack s5 e)"
      "e < length (heap (if inSmall (heap s5 ! e) then small_pushBack s5 e else main_pushBack s5 e))"
      using l2 by simp_all
    then show ?thesis unfolding s' by (rule freqInv_storeNew)
  qed
qed

lemma freqInv_resurrect:
  assumes "freqInv s"
  shows "freqInv (snd (resurrectFromDeathRow s k))"
proof (cases "map_of (entries s) k")
  case None
  with assms show ?thesis by (simp add: resurrectFromDeathRow_def)
next
  case (Some e)
  show ?thesis
  proof (cases "onDeathRow (heap s ! e)")
    case False
    with Some assms show ?thesis by (simp add: resurrectFromDeathRow_def)
  next
    case True
    let ?s1 = "s\<lparr>deathRow := clearFirst (deathRow s) e\<rparr>"
    have sub: "set (clearFirst dr a) \<subseteq> insert None (set dr)" for dr :: "addr option list" and a
      by (induction dr) auto
    have len: "length (clearFirst dr a) = length dr" for dr :: "addr option list" and a
      by (induction dr) auto
    have "\<forall>a. Some a \<in> set (clearFirst (deathRow s) e) \<longrightarrow> a < length (heap s)"
      using assms sub [of "deathRow s" e] by (auto simp: freqInv_def)
    then have s1: "freqInv ?s1"
      using assms len [of "deathRow s" e] by (simp add: freqInv_def)
    let ?g = "\<lambda>x. x\<lparr>onDeathRow := False, inSmall := False, freq := 3, peakFreq := 3\<rparr>"
    have "okc (freq (?g (heap ?s1 ! e)), peakFreq (?g (heap ?s1 ! e)))"
      by (simp add: okc_def maxFreq_def)
    then have "freqInv (upd ?s1 e ?g)"
      by (rule freqInv_upd [OF s1])
    then have "freqInv (main_pushBack (upd ?s1 e ?g) e)" by simp
    moreover have "snd (resurrectFromDeathRow s k) =
          (main_pushBack (upd ?s1 e ?g) e)\<lparr>totalEntries := totalEntries s + 1\<rparr>"
      using Some True
      by (simp add: resurrectFromDeathRow_def Let_def hupd_hupd main_pushBack_def case_prod_beta
          upd_def)
    ultimately show ?thesis by simp
  qed
qed

lemma freqInv_shard_get:
  assumes "freqInv s"
  shows "freqInv (snd (shard_get s k now))"
proof (cases "map_of (entries s) k")
  case None
  with assms show ?thesis by (simp add: shard_get_def)
next
  case (Some e)
  have v: "e < length (heap s)" using assms Some by (rule freqInv_entry)
  have "okc (freq (heap s ! e), peakFreq (heap s ! e))"
    using assms v by (rule freqInv_nth)
  then have "okc (freq (bumpFreq (heap s ! e)), peakFreq (bumpFreq (heap s ! e)))"
    by (rule okc_bumpFreq)
  then have "freqInv (upd s e bumpFreq)"
    by (rule freqInv_upd [OF assms])
  then show ?thesis
    using Some assms freqInv_resurrect [OF assms, of k]
    by (simp add: shard_get_def Let_def)
qed

lemma freqInv_shard_delete:
  assumes "freqInv s"
  shows "freqInv (shard_delete s k)"
proof (cases "map_of (entries s) k")
  case None
  with assms show ?thesis by (simp add: shard_delete_def)
next
  case (Some e)
  let ?s1 = "if inSmall (heap s ! e) then small_remove s e else main_remove s e"
  have s1: "freqInv ?s1" using assms by simp
  have "\<forall>a \<in> snd ` set (AList.delete k (entries ?s1)). a < length (heap ?s1)"
    using s1 set_alist_delete [of k "entries ?s1"] unfolding freqInv_def by blast
  then have "freqInv (?s1\<lparr>entries := AList.delete k (entries ?s1)\<rparr>)"
    using s1 by (simp add: freqInv_def)
  then show ?thesis
    using Some by (simp add: shard_delete_def Let_def)
qed

lemma freqInv_s3fifo_flush:
  assumes "freqInv s"
  shows "freqInv (snd (s3fifo_flush B s))"
  using assms
  by (auto simp: s3fifo_flush_def shard_flush_def freqInv_def emptyRing_def)

lemma freqInv_step:
  assumes "freqInv s" and "step B x s = Inr s'"
  shows "freqInv s'"
proof (cases x)
  case (Set k v ex hsh)
  with assms show ?thesis by (auto intro: freqInv_setWithHash)
next
  case (Get k now)
  with assms freqInv_shard_get [OF assms(1), of k now] show ?thesis by auto
next
  case (Delete k)
  with assms freqInv_shard_delete [OF assms(1), of k] show ?thesis by auto
next
  case Flush
  with assms freqInv_s3fifo_flush [OF assms(1), of B] show ?thesis by auto
qed

lemma freqInv_run:
  "freqInv s \<Longrightarrow> run B xs s = Inr s' \<Longrightarrow> freqInv s'"
proof (induction xs arbitrary: s)
  case Nil
  then show ?case by simp
next
  case (Cons x xs)
  from Cons.prems(2) obtain s1 where s1: "step B x s = Inr s1" and r: "run B xs s1 = Inr s'"
    by (auto split: sum.splits)
  have "freqInv s1" using Cons.prems(1) s1 by (rule freqInv_step)
  then show ?case using r by (rule Cons.IH)
qed

lemma freqInv_newShard: "freqInv (newShard bf1 bf2 hf scap sz)"
  by (simp add: freqInv_def newShard_def counters_def emptyRing_def)

lemma run_resurrectedState:
  "run listBloom [Set ''a'' 1 5 0, Set ''b'' 2 0 0, Get ''a'' 10] (newShard [] [] (\<lambda>_. 1) 1 1)
   = Inr resurrectedState"
proof -
  have "\<not> isl (run listBloom [Set ''a'' 1 5 0, Set ''b'' 2 0 0, Get ''a'' 10] cache1)"
    by code_simp
  then have "run listBloom [Set ''a'' 1 5 0, Set ''b'' 2 0 0, Get ''a'' 10] cache1
             = Inr resurrectedState"
    by (cases "run listBloom [Set ''a'' 1 5 0, Set ''b'' 2 0 0, Get ''a'' 10] cache1")
       (simp_all add: resurrectedState_def runFrom_def)
  then show ?thesis by (simp add: cache1_def)
qed

text \<open>
  Claim C7. After any sequence of set, get, delete and flush operations on a shard as
  \<^verbatim>\<open>newS3FIFO\<close> builds it (evictions and resurrections happen inside set and get), run one
  after the other, every entry satisfies 0 \<open>\<le>\<close> freq \<open>\<le>\<close> 7 and freq \<open>\<le>\<close> peakFreq \<open>\<le>\<close> 7:
  every entry of the heap, and so the entry of every key of the map, which lies in the heap.
\<close>

theorem freq_bounds_invariant:
  assumes "run B ops (newShard bf1 bf2 hf scap sz) = Inr s"
  shows "(\<forall>e \<in> set (heap s). 0 \<le> freq e \<and> freq e \<le> 7
             \<and> freq e \<le> peakFreq e \<and> peakFreq e \<le> 7)
       \<and> (\<forall>k a. map_of (entries s) k = Some a \<longrightarrow> a < length (heap s)
             \<and> freq (heap s ! a) \<le> 7 \<and> freq (heap s ! a) \<le> peakFreq (heap s ! a)
             \<and> peakFreq (heap s ! a) \<le> 7)
       \<and> (\<forall>a. Some a \<in> set (deathRow s) \<longrightarrow> a < length (heap s))"
proof -
  have inv: "freqInv s"
    using freqInv_newShard assms by (rule freqInv_run)
  have h: "\<forall>e \<in> set (heap s). 0 \<le> freq e \<and> freq e \<le> 7
             \<and> freq e \<le> peakFreq e \<and> peakFreq e \<le> 7"
    using inv by (auto simp: freqInv_def counters_def okc_def maxFreq_def)
  have m: "map_of (entries s) k = Some a \<Longrightarrow> a < length (heap s)" for k a
    using inv by (rule freqInv_entry)
  have d: "\<forall>a. Some a \<in> set (deathRow s) \<longrightarrow> a < length (heap s)"
    using inv by (simp add: freqInv_def)
  show ?thesis
    using h m d by (auto simp: all_set_conv_all_nth)
qed

theorem freq_bounds_invariant_witness:
  "run listBloom [Set ''a'' 1 5 0, Set ''b'' 2 0 0, Get ''a'' 10] (newShard [] [] (\<lambda>_. 1) 1 1)
     = Inr resurrectedState
   \<and> map_of (entries resurrectedState) ''a'' = Some 0
   \<and> 0 < length (heap resurrectedState)
   \<and> freq (heap resurrectedState ! 0) \<le> 7
   \<and> freq (heap resurrectedState ! 0) \<le> peakFreq (heap resurrectedState ! 0)
   \<and> peakFreq (heap resurrectedState ! 0) \<le> 7"
proof -
  have m: "map_of (entries resurrectedState) ''a'' = Some 0" by code_simp
  show ?thesis
    using freq_bounds_invariant [OF run_resurrectedState] run_resurrectedState m by blast
qed

end
